theory Spec2Isabelle
  imports Main "HOL-Library.Word" "HOL-Library.Monad_Syntax"
begin

unbundle bit_operations_syntax

section \<open>Hardware boundary of the DHT11 driver (dht11.c)\<close>

text \<open>
  The driver talks to the world through the HAL and two registers only. The model makes
  that boundary explicit.

  The platform and the environment are an \<open>env\<close>: the CMSIS variable
  \<open>SystemCoreClock\<close> (core frequency in Hz), the number of CPU cycles one hardware access
  takes (a read of \<open>DWT->CYCCNT\<close> or one HAL GPIO call), and the level seen on the DHT11
  data pin at every instant, counted in CPU cycles.

  The machine state is a \<open>world\<close>: the CPU cycles elapsed so far (the free-running counter
  \<open>DWT->CYCCNT\<close> is this number modulo \<open>2 ^ 32\<close>), the level of the indicator pin GPIOA.5,
  and the log of every call that leaves the program, stamped with the cycle at which it
  was made. \<open>DWT_Init\<close> has run: the counter is enabled and counts.

  Time passes in hardware accesses and in \<open>HAL_Delay\<close> only; a model in which an access
  takes no time (\<open>access e = 0\<close>) is allowed, and there the busy-wait loops never end.
\<close>

datatype pin_mode = GPIO_MODE_OUTPUT_OD | GPIO_MODE_INPUT

datatype event =
    Gpio_Init pin_mode
  | Gpio_Write bool
  | Hal_Delay "32 word"
  | Led_Toggle
  | Printf string

record env =
  SystemCoreClock :: "32 word"
  access :: nat
  line :: "nat \<Rightarrow> bool"

record world =
  clock :: nat
  led :: bool
  trace :: "(nat \<times> event) list"

definition tick :: "env \<Rightarrow> world \<Rightarrow> world" where
  "tick e w = w\<lparr>clock := clock w + access e\<rparr>"

definition emit :: "event \<Rightarrow> world \<Rightarrow> world" where
  "emit ev w = w\<lparr>trace := trace w @ [(clock w, ev)]\<rparr>"

text \<open>A read of \<open>DWT->CYCCNT\<close>: the 32-bit counter value, and the access takes its time.\<close>

definition read_CYCCNT :: "env \<Rightarrow> world \<Rightarrow> 32 word \<times> world" where
  "read_CYCCNT e w = (of_nat (clock w), tick e w)"

text \<open>\<open>HAL_GPIO_ReadPin(DHT_PIN_GPIO_Port, DHT_PIN_Pin)\<close>: \<open>True\<close> is \<open>GPIO_PIN_SET\<close>.\<close>

definition HAL_GPIO_ReadPin :: "env \<Rightarrow> world \<Rightarrow> bool \<times> world" where
  "HAL_GPIO_ReadPin e w = (line e (clock w), tick e w)"

definition HAL_GPIO_WritePin :: "env \<Rightarrow> bool \<Rightarrow> world \<Rightarrow> world" where
  "HAL_GPIO_WritePin e level w = tick e (emit (Gpio_Write level) w)"

definition HAL_GPIO_Init :: "env \<Rightarrow> pin_mode \<Rightarrow> world \<Rightarrow> world" where
  "HAL_GPIO_Init e m w = tick e (emit (Gpio_Init m) w)"

text \<open>\<open>HAL_GPIO_TogglePin(GPIOA, GPIO_PIN_5)\<close>.\<close>

definition HAL_GPIO_TogglePin :: "env \<Rightarrow> world \<Rightarrow> world" where
  "HAL_GPIO_TogglePin e w = tick e (emit Led_Toggle (w\<lparr>led := \<not> led w\<rparr>))"

text \<open>
  \<open>HAL_Delay(ms)\<close> blocks for the requested milliseconds; the model advances the clock by
  the nominal number of cycles.
\<close>

definition HAL_Delay :: "env \<Rightarrow> 32 word \<Rightarrow> world \<Rightarrow> world" where
  "HAL_Delay e ms w =
     (emit (Hal_Delay ms) w)\<lparr>clock := clock w + unat ms * (unat (SystemCoreClock e) div 1000)\<rparr>"

text \<open>\<open>printf\<close> of an already formatted string; its transmission time is not modelled.\<close>

definition printf :: "string \<Rightarrow> world \<Rightarrow> world" where
  "printf s w = emit (Printf s) w"

section \<open>Microsecond delay\<close>

text \<open>
  \<^verbatim>\<open>while ((DWT->CYCCNT - startTick) < delayTicks) ;\<close>
  Every test of the condition reads the counter. The loop has no bound of its own, so it
  is a partial function: \<open>None\<close> is a loop that never ends.
\<close>

partial_function (option) delay_us_wait :: "env \<Rightarrow> 32 word \<Rightarrow> 32 word \<Rightarrow> world \<Rightarrow> world option" where
  "delay_us_wait e startTick delayTicks w =
     (if fst (read_CYCCNT e w) - startTick < delayTicks
      then delay_us_wait e startTick delayTicks (snd (read_CYCCNT e w))
      else Some (snd (read_CYCCNT e w)))"

definition delay_us :: "env \<Rightarrow> 32 word \<Rightarrow> world \<Rightarrow> world option" where
  "delay_us e us w =
     (let startTick = fst (read_CYCCNT e w);
          w1 = snd (read_CYCCNT e w);
          delayTicks = us * (SystemCoreClock e div 1000000)
      in delay_us_wait e startTick delayTicks w1)"

text \<open>The cycles \<open>delay_us\<close> is asked to wait, and the cycles it takes when it returns.\<close>

definition delayTicks_of :: "env \<Rightarrow> 32 word \<Rightarrow> nat" where
  "delayTicks_of e us = unat (us * (SystemCoreClock e div 1000000))"

definition delay_cycles :: "env \<Rightarrow> 32 word \<Rightarrow> nat" where
  "delay_cycles e us =
     access e * (max 1 ((delayTicks_of e us + access e - 1) div access e) + 1)"

section \<open>Pin direction\<close>

definition DHT11_SetPinOutput :: "env \<Rightarrow> world \<Rightarrow> world" where
  "DHT11_SetPinOutput e w = HAL_GPIO_Init e GPIO_MODE_OUTPUT_OD w"

definition DHT11_SetPinInput :: "env \<Rightarrow> world \<Rightarrow> world" where
  "DHT11_SetPinInput e w = HAL_GPIO_Init e GPIO_MODE_INPUT w"

section \<open>Start signal\<close>

text \<open>
  \<open>MY_DEBUG\<close> is 0 in my_debug.h, so \<open>DEBUG_PRINT\<close>, \<open>DEBUG_INFO\<close> and \<open>DEBUG_ERROR\<close>
  expand to \<open>((void)0)\<close> and leave no trace in any function below.
\<close>

definition DHT11_Start :: "env \<Rightarrow> world \<Rightarrow> world option" where
  "DHT11_Start e w =
     do {
       let w1 = DHT11_SetPinOutput e w;
       let w2 = HAL_GPIO_WritePin e False w1;
       let w3 = HAL_Delay e 18 w2;
       let w4 = HAL_GPIO_WritePin e True w3;
       w5 \<leftarrow> delay_us e 30 w4;
       Some (DHT11_SetPinInput e w5)
     }"

section \<open>Sensor response\<close>

text \<open>
  \<^verbatim>\<open>while (HAL_GPIO_ReadPin(...) && timeout--) delay_us(1);\<close>
  The right operand of \<open>&&\<close> is evaluated only when the pin reads high; it tests the old
  value of \<open>timeout\<close> and decrements it, wrapping below zero. The function returns the
  value left in \<open>timeout\<close> with the world.
\<close>

function poll_while_high :: "env \<Rightarrow> 32 word \<Rightarrow> world \<Rightarrow> (32 word \<times> world) option" where
  "poll_while_high e timeout w =
     (if fst (HAL_GPIO_ReadPin e w) \<and> timeout \<noteq> 0
      then do {
             w2 \<leftarrow> delay_us e 1 (snd (HAL_GPIO_ReadPin e w));
             poll_while_high e (timeout - 1) w2
           }
      else Some (if fst (HAL_GPIO_ReadPin e w) then timeout - 1 else timeout,
                 snd (HAL_GPIO_ReadPin e w)))"
  by pat_completeness auto
termination
proof (relation "measure (\<lambda>(e, timeout, w). unat timeout)")
  show "wf (measure (\<lambda>(e, timeout, w). unat timeout))"
    by simp
next
  fix e :: env and timeout :: "32 word" and w w2 :: world
  assume "fst (HAL_GPIO_ReadPin e w) \<and> timeout \<noteq> 0"
  then have "unat timeout \<noteq> 0"
    by (simp add: unsigned_eq_0_iff)
  then have "unat (timeout - 1) < unat timeout"
    using \<open>fst (HAL_GPIO_ReadPin e w) \<and> timeout \<noteq> 0\<close> by (simp add: unat_minus_one)
  then show "((e, timeout - 1, w2), (e, timeout, w)) \<in> measure (\<lambda>(e, timeout, w). unat timeout)"
    by simp
qed

declare poll_while_high.simps [simp del]

definition DHT11_CheckResponse :: "env \<Rightarrow> world \<Rightarrow> (8 word \<times> world) option" where
  "DHT11_CheckResponse e w =
     do {
       (timeout1, w1) \<leftarrow> poll_while_high e 100 w;
       (response, w3) \<leftarrow>
         (if \<not> fst (HAL_GPIO_ReadPin e w1)
          then do {
                 w2 \<leftarrow> delay_us e 80 (snd (HAL_GPIO_ReadPin e w1));
                 Some (if fst (HAL_GPIO_ReadPin e w2) then 1 else 0, snd (HAL_GPIO_ReadPin e w2))
               }
          else Some (0, snd (HAL_GPIO_ReadPin e w1)));
       (timeout2, w4) \<leftarrow> poll_while_high e 100 w3;
       Some (response, w4)
     }"

section \<open>Reading one byte\<close>

text \<open>
  \<^verbatim>\<open>while (HAL_GPIO_ReadPin(...) == level) { }\<close>
  with \<open>level = GPIO_PIN_RESET\<close> (wait for high) and \<open>level = GPIO_PIN_SET\<close> (wait for
  low). Neither loop has a bound.
\<close>

partial_function (option) wait_while_pin :: "env \<Rightarrow> bool \<Rightarrow> world \<Rightarrow> world option" where
  "wait_while_pin e level w =
     (if fst (HAL_GPIO_ReadPin e w) = level
      then wait_while_pin e level (snd (HAL_GPIO_ReadPin e w))
      else Some (snd (HAL_GPIO_ReadPin e w)))"

text \<open>\<^verbatim>\<open>(uint8_t) (1U << (7U - i))\<close>: \<open>i\<close> is converted to \<open>unsigned\<close>, the result cut to 8 bits.\<close>

definition bit_mask :: "8 word \<Rightarrow> 32 word" where
  "bit_mask i = push_bit (unat (7 - (ucast i :: 32 word))) (1 :: 32 word)"

function DHT11_ReadByte_loop :: "env \<Rightarrow> 8 word \<Rightarrow> 8 word \<Rightarrow> world \<Rightarrow> (8 word \<times> world) option" where
  "DHT11_ReadByte_loop e i byte w =
     (if i < 8
      then do {
             w1 \<leftarrow> wait_while_pin e False w;
             w2 \<leftarrow> delay_us e 40 w1;
             let byte' = (if fst (HAL_GPIO_ReadPin e w2)
                          then byte OR (ucast (bit_mask i) :: 8 word)
                          else byte AND (ucast (NOT (bit_mask i)) :: 8 word));
             w4 \<leftarrow> wait_while_pin e True (snd (HAL_GPIO_ReadPin e w2));
             DHT11_ReadByte_loop e (i + 1) byte' w4
           }
      else Some (byte, w))"
  by pat_completeness auto
termination
proof (relation "measure (\<lambda>(e, i, byte, w). 8 - unat i)")
  show "wf (measure (\<lambda>(e, i, byte, w). 8 - unat i))"
    by simp
next
  fix e :: env and i byte byte' :: "8 word" and w w1 w2 w4 :: world
  assume "i < 8"
  then have "unat i < 8"
    by (simp add: word_less_nat_alt)
  then have "unat (i + 1) = unat i + 1"
    by (simp add: unat_word_ariths)
  then show "((e, i + 1, byte', w4), (e, i, byte, w)) \<in> measure (\<lambda>(e, i, byte, w). 8 - unat i)"
    using \<open>unat i < 8\<close> by simp
qed

declare DHT11_ReadByte_loop.simps [simp del]

definition DHT11_ReadByte :: "env \<Rightarrow> world \<Rightarrow> (8 word \<times> world) option" where
  "DHT11_ReadByte e w = DHT11_ReadByte_loop e 0 0 w"

section \<open>One read-and-report cycle\<close>

text \<open>\<open>%d\<close> of a value that is never negative here (a \<open>uint8_t\<close> promoted to \<open>int\<close>).\<close>

definition digit_char :: "nat \<Rightarrow> char" where
  "digit_char d = ''0123456789'' ! d"

fun decimal :: "nat \<Rightarrow> string" where
  "decimal n = (if n < 10 then [digit_char n] else decimal (n div 10) @ [digit_char (n mod 10)])"

declare decimal.simps [simp del]

text \<open>
  \<^verbatim>\<open>printf("Humidity: %d.%d %% RH \t Temperature: %d.%d deg C\r\n", ...)\<close>:
  \<open>%%\<close> prints one percent sign, \<open>\t\<close> is a tab (9), \<open>\r\n\<close> are 13 and 10.
\<close>

definition reading_line :: "8 word \<Rightarrow> 8 word \<Rightarrow> 8 word \<Rightarrow> 8 word \<Rightarrow> string" where
  "reading_line rh_int rh_dec t_int t_dec =
     ''Humidity: '' @ decimal (unat rh_int) @ ''.'' @ decimal (unat rh_dec) @ '' % RH ''
     @ [CHR 0x09] @ '' Temperature: '' @ decimal (unat t_int) @ ''.''
     @ decimal (unat t_dec) @ '' deg C'' @ [CHR 0x0D, CHR 0x0A]"

definition checksum_error_line :: string where
  "checksum_error_line = ''DHT11 checksum error'' @ [CHR 0x0D, CHR 0x0A]"

text \<open>
  Lines 316 to 329 of \<open>ReadAndDisplayDHT11\<close>, the part after the five bytes are read.
  In \<^verbatim>\<open>checksum == (rh_int + rh_dec + t_int + t_dec)\<close> every operand is promoted to
  \<open>int\<close>, so the sum is not reduced to 8 bits before the comparison.
\<close>

definition validate_and_report ::
  "env \<Rightarrow> 8 word \<Rightarrow> 8 word \<Rightarrow> 8 word \<Rightarrow> 8 word \<Rightarrow> 8 word \<Rightarrow> world \<Rightarrow> world" where
  "validate_and_report e rh_int rh_dec t_int t_dec checksum w =
     (if uint checksum = uint rh_int + uint rh_dec + uint t_int + uint t_dec
      then printf (reading_line rh_int rh_dec t_int t_dec) (HAL_GPIO_TogglePin e w)
      else printf checksum_error_line w)"

definition ReadAndDisplayDHT11 :: "env \<Rightarrow> world \<Rightarrow> world option" where
  "ReadAndDisplayDHT11 e w =
     do {
       let w0 = HAL_Delay e 1 w;
       w1 \<leftarrow> DHT11_Start e w0;
       (response, w2) \<leftarrow> DHT11_CheckResponse e w1;
       if response \<noteq> 0
       then do {
              (rh_int, w3) \<leftarrow> DHT11_ReadByte e w2;
              (rh_dec, w4) \<leftarrow> DHT11_ReadByte e w3;
              (t_int, w5) \<leftarrow> DHT11_ReadByte e w4;
              (t_dec, w6) \<leftarrow> DHT11_ReadByte e w5;
              (checksum, w7) \<leftarrow> DHT11_ReadByte e w6;
              let w8 = validate_and_report e rh_int rh_dec t_int t_dec checksum w7;
              Some (HAL_Delay e 2000 w8)
            }
       else Some w2
     }"

section \<open>Reference environments\<close>

text \<open>
  A board clocked at 16 MHz (the reset value of \<open>SystemCoreClock\<close> on the STM32F446RE)
  on which one hardware access takes 16 cycles (one microsecond), with a given waveform
  on the data pin, and the state at power-on.
\<close>

definition board16 :: "(nat \<Rightarrow> bool) \<Rightarrow> env" where
  "board16 l = \<lparr>SystemCoreClock = 16000000, access = 16, line = l\<rparr>"

definition power_on :: world where
  "power_on = \<lparr>clock = 0, led = False, trace = []\<rparr>"

text \<open>
  The same board when every hardware access takes 100 cycles (6.25 microseconds).
\<close>

definition board16_slow :: "(nat \<Rightarrow> bool) \<Rightarrow> env" where
  "board16_slow l = \<lparr>SystemCoreClock = 16000000, access = 100, line = l\<rparr>"

text \<open>The calls of the start signal, in order.\<close>

definition start_calls :: "event list" where
  "start_calls = [Gpio_Init GPIO_MODE_OUTPUT_OD, Gpio_Write False, Hal_Delay 18,
                  Gpio_Write True, Gpio_Init GPIO_MODE_INPUT]"

section \<open>Durations and instants\<close>

text \<open>
  Cycles per microsecond and per millisecond, the period of one round of a bounded poll
  (a pin read and \<open>delay_us(1)\<close>), and the instants \<open>DHT11_CheckResponse\<close> reads the pin at
  when its first poll loop has made \<open>n\<close> rounds.
\<close>

definition us_cycles :: "env \<Rightarrow> nat" where
  "us_cycles e = unat (SystemCoreClock e) div 1000000"

definition ms_cycles :: "env \<Rightarrow> nat" where
  "ms_cycles e = unat (SystemCoreClock e) div 1000"

definition poll_period :: "env \<Rightarrow> nat" where
  "poll_period e = access e + delay_cycles e 1"

definition ack_low_read :: "env \<Rightarrow> world \<Rightarrow> nat \<Rightarrow> nat" where
  "ack_low_read e w n = clock w + poll_period e * n + access e"

definition ack_high_read :: "env \<Rightarrow> world \<Rightarrow> nat \<Rightarrow> nat" where
  "ack_high_read e w n = ack_low_read e w n + access e + delay_cycles e 80"

definition ack_polls_end :: "env \<Rightarrow> world \<Rightarrow> nat \<Rightarrow> nat" where
  "ack_polls_end e w n =
     (if line e (ack_low_read e w n) then ack_low_read e w n else ack_high_read e w n) + access e"

text \<open>
  The log of \<open>DHT11_Start\<close> called at cycle \<open>t\<close>, its duration, and the instant at which
  \<open>ReadAndDisplayDHT11\<close> has released the line to the sensor.
\<close>

definition start_trace :: "env \<Rightarrow> nat \<Rightarrow> (nat \<times> event) list" where
  "start_trace e t =
     [(t, Gpio_Init GPIO_MODE_OUTPUT_OD),
      (t + access e, Gpio_Write False),
      (t + 2 * access e, Hal_Delay 18),
      (t + 2 * access e + 18 * ms_cycles e, Gpio_Write True),
      (t + 3 * access e + 18 * ms_cycles e + delay_cycles e 30, Gpio_Init GPIO_MODE_INPUT)]"

definition start_duration :: "env \<Rightarrow> nat" where
  "start_duration e = 4 * access e + 18 * ms_cycles e + delay_cycles e 30"

definition release_instant :: "env \<Rightarrow> world \<Rightarrow> nat" where
  "release_instant e w = clock w + ms_cycles e + start_duration e"

section \<open>Bit decoding, in the words of the specification\<close>

text \<open>
  One bit: wait for the line to go high, delay 40 microseconds, sample once, wait for the
  line to fall. The bit is the sample. A byte is eight bits, the first one the most
  significant. \<open>sample_instant\<close> is the instant of the sample when the line was seen high
  by the read made at \<open>t_high\<close>.
\<close>

definition sample_instant :: "env \<Rightarrow> nat \<Rightarrow> nat" where
  "sample_instant e t_high = t_high + access e + delay_cycles e 40"

definition decode_bit :: "env \<Rightarrow> world \<Rightarrow> (bool \<times> world) option" where
  "decode_bit e w =
     do {
       w1 \<leftarrow> wait_while_pin e False w;
       w2 \<leftarrow> delay_us e 40 w1;
       w3 \<leftarrow> wait_while_pin e True (tick e w2);
       Some (line e (clock w2), w3)
     }"

fun decode_bits :: "env \<Rightarrow> nat \<Rightarrow> world \<Rightarrow> (bool list \<times> world) option" where
  "decode_bits e 0 w = Some ([], w)"
| "decode_bits e (Suc n) w =
     do {
       (b, w1) \<leftarrow> decode_bit e w;
       (bs, w2) \<leftarrow> decode_bits e n w1;
       Some (b # bs, w2)
     }"

definition msb_first :: "bool list \<Rightarrow> 8 word" where
  "msb_first bs = foldl (\<lambda>acc b. 2 * acc + of_bool b) 0 bs"

definition decode_byte :: "env \<Rightarrow> world \<Rightarrow> (8 word \<times> world) option" where
  "decode_byte e w = map_option (\<lambda>(bs, w'). (msb_first bs, w')) (decode_bits e 8 w)"

section \<open>Observations on the log\<close>



definition new_calls :: "world \<Rightarrow> world \<Rightarrow> event list" where
  "new_calls w w' = drop (length (trace w)) (map snd (trace w'))"

section \<open>The sensor on the line\<close>

text \<open>
  The waveform a DHT11 puts on the line, from the timing overview of the README, in
  units of \<open>k\<close> cycles per microsecond: every bit is 50 microseconds low, then 27
  microseconds high for a 0 (the README gives 26 to 28) or 70 microseconds high for a 1;
  after the last bit the line is low for 50 microseconds and then released. A byte is
  sent most significant bit first. The answer to a start signal, beginning at \<open>t0\<close>, is
  80 microseconds low, 80 microseconds high, and the bits of the frame.
\<close>

fun dht11_bits :: "nat \<Rightarrow> bool list \<Rightarrow> nat \<Rightarrow> bool" where
  "dht11_bits k [] t = (50 * k \<le> t)"
| "dht11_bits k (b # bs) t =
     (if t < 50 * k then False
      else if t < 50 * k + (if b then 70 * k else 27 * k) then True
      else dht11_bits k bs (t - (50 * k + (if b then 70 * k else 27 * k))))"

fun bits_duration :: "nat \<Rightarrow> bool list \<Rightarrow> nat" where
  "bits_duration k [] = 0"
| "bits_duration k (b # bs) = 50 * k + (if b then 70 * k else 27 * k) + bits_duration k bs"

definition byte_bits :: "8 word \<Rightarrow> bool list" where
  "byte_bits b = map (bit b) (rev [0..<8])"

definition frame_bits :: "8 word list \<Rightarrow> bool list" where
  "frame_bits frame = concat (map byte_bits frame)"

definition dht11_answer :: "nat \<Rightarrow> nat \<Rightarrow> 8 word list \<Rightarrow> nat \<Rightarrow> bool" where
  "dht11_answer k t0 frame t =
     (if t < t0 then True
      else if t < t0 + 80 * k then False
      else if t < t0 + 160 * k then True
      else dht11_bits k (frame_bits frame) (t - (t0 + 160 * k)))"

text \<open>
  Two sensors that fail after their acknowledgment (80 microseconds low from \<open>t0\<close>, then
  high): one leaves the line high for ever, the other pulls it low after 80 microseconds
  and holds it there.
\<close>

definition ack_then_high :: "nat \<Rightarrow> nat \<Rightarrow> nat \<Rightarrow> bool" where
  "ack_then_high k t0 t = (t < t0 \<or> t0 + 80 * k \<le> t)"

definition ack_then_low :: "nat \<Rightarrow> nat \<Rightarrow> nat \<Rightarrow> bool" where
  "ack_then_low k t0 t = (t < t0 \<or> (t0 + 80 * k \<le> t \<and> t < t0 + 160 * k))"

section \<open>Decimal numerals\<close>



section \<open>The delay loop returns\<close>

lemma elapsed_less:
  assumes "m < 2 ^ 32"
  shows "((of_nat (c0 + m) :: 32 word) - of_nat c0 < dT) = (m < unat dT)"
proof -
  have "(of_nat (c0 + m) :: 32 word) - of_nat c0 = of_nat m"
    by simp
  moreover have "unat (of_nat m :: 32 word) = m"
    using assms by (simp add: unat_of_nat)
  ultimately show ?thesis
    by (simp add: word_less_nat_alt)
qed

lemma delay_us_wait_steps:
  assumes below: "\<forall>i<n. access e * (j + i) < unat dT"
    and reach: "unat dT \<le> access e * (j + n)"
    and nowrap: "access e * (j + n) < 2 ^ 32"
    and clk: "clock w = c0 + access e * j"
  shows "delay_us_wait e (of_nat c0) dT w = Some (w\<lparr>clock := c0 + access e * (j + n + 1)\<rparr>)"
  using below reach nowrap clk
proof (induction n arbitrary: j w)
  case 0
  have "\<not> (of_nat (c0 + access e * j) :: 32 word) - of_nat c0 < dT"
    using 0 by (subst elapsed_less) simp_all
  then show ?case
    using 0 by (subst delay_us_wait.simps) (simp add: read_CYCCNT_def tick_def algebra_simps)
next
  case (Suc n)
  have lt: "access e * j < unat dT"
    using Suc.prems(1) by (metis add.right_neutral zero_less_Suc)
  moreover have "unat dT < 2 ^ 32"
    using unsigned_less [of dT, where ?'a = nat] by simp
  ultimately have c: "(of_nat (c0 + access e * j) :: 32 word) - of_nat c0 < dT"
    by (subst elapsed_less) simp_all
  have below': "\<forall>i<n. access e * (Suc j + i) < unat dT"
    using Suc.prems(1) by (metis Suc_less_eq add_Suc add_Suc_right)
  have ih: "delay_us_wait e (of_nat c0) dT (tick e w)
             = Some ((tick e w)\<lparr>clock := c0 + access e * (Suc j + n + 1)\<rparr>)"
    by (rule Suc.IH [OF below']) (use Suc.prems in \<open>simp_all add: tick_def\<close>)
  show ?case
    using c ih Suc.prems(4)
    by (subst delay_us_wait.simps) (simp add: read_CYCCNT_def tick_def)
qed

lemma ceil_facts:
  fixes a D :: nat
  assumes "0 < a"
  defines "J \<equiv> max 1 ((D + a - 1) div a)"
  shows "D \<le> a * J" and "a * J < D + 2 * a" and "\<forall>k. 1 \<le> k \<and> k < J \<longrightarrow> a * k < D"
    and "1 \<le> D \<Longrightarrow> a * J < D + a"
proof -
  let ?q = "(D + a - 1) div a"
  have lo: "a * ?q \<le> D + a - 1"
    by simp
  have hi: "D + a - 1 < a * ?q + a"
    using assms(1) by (metis add.commute dividend_less_times_div)
  show "D \<le> a * J"
  proof -
    have "D \<le> a * ?q" using hi assms(1) by linarith
    also have "\<dots> \<le> a * J" unfolding J_def by simp
    finally show ?thesis .
  qed
  show "a * J < D + 2 * a"
  proof (cases "1 \<le> ?q")
    case True
    then have "a * J = a * ?q" by (simp add: J_def)
    then show ?thesis using lo assms(1) by linarith
  next
    case False
    then have "J = 1" by (simp add: J_def)
    then show ?thesis using assms(1) by simp
  qed
  show "\<forall>k. 1 \<le> k \<and> k < J \<longrightarrow> a * k < D"
  proof (intro allI impI)
    fix k assume k: "1 \<le> k \<and> k < J"
    then have Jq: "J = ?q" by (auto simp: J_def max_def split: if_splits)
    have "a * k + a = a * (k + 1)" by simp
    also have "\<dots> \<le> a * ?q" using k Jq by (intro mult_le_mono2) simp
    finally show "a * k < D" using lo assms(1) by linarith
  qed
  show "a * J < D + a" if "1 \<le> D"
  proof -
    have "1 \<le> ?q" using that assms(1) by (simp add: Suc_le_eq div_greater_zero_iff)
    then have "a * J = a * ?q" by (simp add: J_def)
    then show ?thesis using lo assms(1) that by linarith
  qed
qed

lemma delay_us_returns:
  assumes a: "0 < access e" and fit: "delayTicks_of e us + access e < 2 ^ 32"
  shows "delay_us e us w = Some (w\<lparr>clock := clock w + delay_cycles e us\<rparr>)"
proof -
  define D where "D = delayTicks_of e us"
  define J where "J = max 1 ((D + access e - 1) div access e)"
  have J1: "1 \<le> J" by (simp add: J_def)
  have f1: "D \<le> access e * J" and f2: "\<forall>k. 1 \<le> k \<and> k < J \<longrightarrow> access e * k < D"
    and f3: "access e * J < D + 2 * access e" and f4: "1 \<le> D \<Longrightarrow> access e * J < D + access e"
    unfolding J_def using ceil_facts [OF a, of D] by simp_all
  have nowrap: "access e * J < 2 ^ 32"
  proof (cases "1 \<le> D")
    case True then show ?thesis using f4 fit by (simp add: D_def)
  next
    case False
    then have "D = 0" by simp
    then have "J = 1" using a by (simp add: J_def)
    then show ?thesis using fit by simp
  qed
  have "delay_us_wait e (of_nat (clock w)) (us * (SystemCoreClock e div 1000000)) (tick e w)
      = Some ((tick e w)\<lparr>clock := clock w + access e * (1 + (J - 1) + 1)\<rparr>)"
  proof (rule delay_us_wait_steps)
    show "\<forall>i<J - 1. access e * (1 + i) < unat (us * (SystemCoreClock e div 1000000))"
    proof (intro allI impI)
      fix i assume "i < J - 1"
      then have "1 \<le> 1 + i \<and> 1 + i < J" by simp
      then have "access e * (1 + i) < D" using f2 by blast
      then show "access e * (1 + i) < unat (us * (SystemCoreClock e div 1000000))"
        by (simp add: D_def delayTicks_of_def)
    qed
    show "unat (us * (SystemCoreClock e div 1000000)) \<le> access e * (1 + (J - 1))"
      using f1 J1 by (simp add: D_def delayTicks_of_def)
    show "access e * (1 + (J - 1)) < 2 ^ 32"
      using nowrap J1 by simp
    show "clock (tick e w) = clock w + access e * 1"
      by (simp add: tick_def)
  qed
  then show ?thesis
    using J1 by (simp add: delay_us_def read_CYCCNT_def Let_def delay_cycles_def J_def D_def tick_def)
qed

lemma delay_cycles_bounds:
  assumes a: "0 < access e"
  shows "delayTicks_of e us + access e \<le> delay_cycles e us"
    and "delay_cycles e us < delayTicks_of e us + 3 * access e"
  using ceil_facts(1,2) [OF a, of "delayTicks_of e us"]
  by (simp_all add: delay_cycles_def)

lemma unat_mult32:
  fixes x y :: "32 word"
  assumes "unat x * unat y < 2 ^ 32"
  shows "unat (x * y) = unat x * unat y"
  using assms unat_mult_lem [of x y] by simp

lemma delayTicks_small:
  assumes "unat us \<le> 1000"
  shows "delayTicks_of e us = unat us * (unat (SystemCoreClock e) div 1000000)"
proof -
  have k: "unat (SystemCoreClock e div 1000000) = unat (SystemCoreClock e) div 1000000"
    by (simp add: unat_div)
  have "unat (SystemCoreClock e) < 2 ^ 32"
    using unsigned_less [of "SystemCoreClock e", where ?'a = nat] by simp
  then have "unat (SystemCoreClock e) div 1000000 \<le> 4294"
    by simp
  then have "unat us * (unat (SystemCoreClock e) div 1000000) \<le> 1000 * 4294"
    using assms by (rule_tac mult_le_mono) simp_all
  then have "unat us * unat (SystemCoreClock e div 1000000) < 2 ^ 32"
    using k by simp
  then have "unat (us * (SystemCoreClock e div 1000000)) = unat us * unat (SystemCoreClock e div 1000000)"
    by (rule unat_mult32)
  then show ?thesis
    using k by (simp add: delayTicks_of_def)
qed

section \<open>What the driver leaves untouched\<close>










section \<open>The polls\<close>

lemma delay_us_small:
  assumes "0 < access e" and "access e < 2 ^ 31" and "unat us \<le> 1000"
  shows "delay_us e us w = Some (w\<lparr>clock := clock w + delay_cycles e us\<rparr>)"
proof -
  have "unat (SystemCoreClock e) < 2 ^ 32"
    using unsigned_less [of "SystemCoreClock e", where ?'a = nat] by simp
  then have "unat (SystemCoreClock e) div 1000000 \<le> 4294"
    by simp
  then have "unat us * (unat (SystemCoreClock e) div 1000000) \<le> 1000 * 4294"
    using assms(3) by (rule_tac mult_le_mono) simp_all
  then have "delayTicks_of e us + access e < 2 ^ 32"
    using assms by (simp add: delayTicks_small)
  then show ?thesis
    using assms(1) by (rule_tac delay_us_returns)
qed

lemma delay_cycles_small:
  assumes "0 < access e" and "unat us \<le> 1000"
  shows "unat us * us_cycles e + access e \<le> delay_cycles e us"
    and "delay_cycles e us < unat us * us_cycles e + 3 * access e"
  using delay_cycles_bounds [OF assms(1), of us] delayTicks_small [OF assms(2), of e]
  by (simp_all add: us_cycles_def)

lemma wait_while_pin_steps:
  assumes "\<forall>i<n. line e (clock w + access e * i) = level"
    and "line e (clock w + access e * n) \<noteq> level"
  shows "wait_while_pin e level w = Some (w\<lparr>clock := clock w + access e * (n + 1)\<rparr>)"
  using assms
proof (induction n arbitrary: w)
  case 0
  then show ?case
    by (subst wait_while_pin.simps) (simp add: HAL_GPIO_ReadPin_def tick_def)
next
  case (Suc n)
  have here: "line e (clock w) = level"
    using Suc.prems(1) by (metis add.right_neutral mult_0_right zero_less_Suc)
  have "\<forall>i<n. line e (clock (tick e w) + access e * i) = level"
  proof (intro allI impI)
    fix i assume "i < n"
    then have "Suc i < Suc n" by simp
    with Suc.prems(1) have "line e (clock w + access e * Suc i) = level"
      by blast
    then show "line e (clock (tick e w) + access e * i) = level"
      by (simp add: tick_def add.assoc)
  qed
  moreover have "line e (clock (tick e w) + access e * n) \<noteq> level"
    using Suc.prems(2) by (simp add: tick_def add.assoc)
  ultimately have "wait_while_pin e level (tick e w)
      = Some ((tick e w)\<lparr>clock := clock (tick e w) + access e * (n + 1)\<rparr>)"
    by (rule Suc.IH)
  then show ?case
    using here by (subst wait_while_pin.simps) (simp add: HAL_GPIO_ReadPin_def tick_def add.assoc)
qed

lemma wait_while_pin_stuck:
  assumes "\<forall>t\<ge>clock w. line e t = level"
  shows "wait_while_pin e level w = None"
proof (rule ccontr)
  assume "wait_while_pin e level w \<noteq> None"
  then obtain y where y: "wait_while_pin e level w = Some y"
    by auto
  have "\<not> (\<forall>t\<ge>clock w. line e t = level)"
  proof (rule wait_while_pin.raw_induct
      [where P = "\<lambda>e level w y. \<not> (\<forall>t\<ge>clock w. line e t = level)", OF _ y])
    fix f e level w y
    assume ih: "\<And>e level w y. f e level w = Some y \<Longrightarrow> \<not> (\<forall>t\<ge>clock w. line e t = level)"
      and step: "(if fst (HAL_GPIO_ReadPin e w) = level then f e level (snd (HAL_GPIO_ReadPin e w))
                  else Some (snd (HAL_GPIO_ReadPin e w))) = Some y"
    show "\<not> (\<forall>t\<ge>clock w. line e t = level)"
    proof (cases "fst (HAL_GPIO_ReadPin e w) = level")
      case True
      then have "f e level (snd (HAL_GPIO_ReadPin e w)) = Some y" using step by simp
      from ih [OF this] obtain t where "clock w + access e \<le> t" and "line e t \<noteq> level"
        by (auto simp: HAL_GPIO_ReadPin_def tick_def)
      then show ?thesis
        by (metis add_leD1)
    next
      case False
      then show ?thesis
        by (auto simp: HAL_GPIO_ReadPin_def)
    qed
  qed
  then show False using assms by simp
qed

lemma poll_while_high_returns:
  assumes "0 < access e" and "access e < 2 ^ 31"
  shows "\<exists>n t'. n \<le> unat timeout
           \<and> (\<forall>i<n. line e (clock w + poll_period e * i))
           \<and> (n = unat timeout \<or> \<not> line e (clock w + poll_period e * n))
           \<and> poll_while_high e timeout w
               = Some (t', w\<lparr>clock := clock w + poll_period e * n + access e\<rparr>)"
  using assms
proof (induction e timeout w rule: poll_while_high.induct)
  case (1 e timeout w)
  let ?P = "poll_period e"
  show ?case
  proof (cases "fst (HAL_GPIO_ReadPin e w) \<and> timeout \<noteq> 0")
    case True
    define w2 where "w2 = w\<lparr>clock := clock w + ?P\<rparr>"
    have d: "delay_us e 1 (snd (HAL_GPIO_ReadPin e w)) = Some w2"
      using "1.prems"
      by (simp add: delay_us_small HAL_GPIO_ReadPin_def tick_def w2_def poll_period_def add.assoc)
    from "1.IH" [OF True d "1.prems"] obtain n t' where
      n: "n \<le> unat (timeout - 1)"
      and hi: "\<forall>i<n. line e (clock w2 + ?P * i)"
      and stop: "n = unat (timeout - 1) \<or> \<not> line e (clock w2 + ?P * n)"
      and r: "poll_while_high e (timeout - 1) w2
               = Some (t', w2\<lparr>clock := clock w2 + ?P * n + access e\<rparr>)"
      by blast
    have "unat timeout \<noteq> 0"
      using True by (simp add: unsigned_eq_0_iff)
    then have u: "unat (timeout - 1) = unat timeout - 1"
      using True by (simp add: unat_minus_one)
    have c2: "clock w2 = clock w + ?P"
      by (simp add: w2_def)
    have here: "line e (clock w)"
      using True by (simp add: HAL_GPIO_ReadPin_def)
    have "\<forall>i<Suc n. line e (clock w + ?P * i)"
    proof (intro allI impI)
      fix i assume i: "i < Suc n"
      show "line e (clock w + ?P * i)"
      proof (cases i)
        case 0
        then show ?thesis using here by simp
      next
        case (Suc j)
        then have "line e (clock w2 + ?P * j)" using hi i by simp
        then show ?thesis by (simp add: Suc c2 add.assoc)
      qed
    qed
    moreover have "Suc n \<le> unat timeout"
      using n u \<open>unat timeout \<noteq> 0\<close> by simp
    moreover have "Suc n = unat timeout \<or> \<not> line e (clock w + ?P * Suc n)"
      using stop u \<open>unat timeout \<noteq> 0\<close> by (auto simp: c2 add.assoc)
    moreover have "poll_while_high e timeout w
        = Some (t', w\<lparr>clock := clock w + ?P * Suc n + access e\<rparr>)"
      using True d r by (subst poll_while_high.simps) (simp add: w2_def add.assoc)
    ultimately show ?thesis
      by blast
  next
    case False
    then have "0 = unat timeout \<or> \<not> line e (clock w + ?P * 0)"
      by (auto simp: HAL_GPIO_ReadPin_def)
    moreover have "\<exists>t'. poll_while_high e timeout w
        = Some (t', w\<lparr>clock := clock w + ?P * 0 + access e\<rparr>)"
      using False by (subst poll_while_high.simps) (auto simp: HAL_GPIO_ReadPin_def tick_def)
    ultimately show ?thesis
      by (metis less_nat_zero_code zero_le)
  qed
qed

lemma CheckResponse_returns:
  assumes a: "0 < access e" "access e < 2 ^ 31"
  shows "\<exists>n m. n \<le> 100 \<and> m \<le> 100
           \<and> (\<forall>i<n. line e (clock w + poll_period e * i))
           \<and> (n = 100 \<or> \<not> line e (clock w + poll_period e * n))
           \<and> (\<forall>i<m. line e (ack_polls_end e w n + poll_period e * i))
           \<and> (m = 100 \<or> \<not> line e (ack_polls_end e w n + poll_period e * m))
           \<and> DHT11_CheckResponse e w
               = Some (if \<not> line e (ack_low_read e w n) \<and> line e (ack_high_read e w n) then 1 else 0,
                       w\<lparr>clock := ack_polls_end e w n + poll_period e * m + access e\<rparr>)"
proof -
  from poll_while_high_returns [OF a, of 100 w] obtain n t1 where
    n: "n \<le> 100" and hi: "\<forall>i<n. line e (clock w + poll_period e * i)"
    and stop: "n = 100 \<or> \<not> line e (clock w + poll_period e * n)"
    and p1: "poll_while_high e 100 w = Some (t1, w\<lparr>clock := ack_low_read e w n\<rparr>)"
    by (auto simp: ack_low_read_def)
  define w1 where "w1 = w\<lparr>clock := ack_low_read e w n\<rparr>"
  define r :: "8 word" where
    "r = (if \<not> line e (ack_low_read e w n) \<and> line e (ack_high_read e w n) then 1 else 0)"
  define w3 where "w3 = w\<lparr>clock := ack_polls_end e w n\<rparr>"
  have mid: "(if \<not> fst (HAL_GPIO_ReadPin e w1)
          then do {
                 w2 \<leftarrow> delay_us e 80 (snd (HAL_GPIO_ReadPin e w1));
                 Some (if fst (HAL_GPIO_ReadPin e w2) then (1 :: 8 word) else 0, snd (HAL_GPIO_ReadPin e w2))
               }
          else Some (0, snd (HAL_GPIO_ReadPin e w1))) = Some (r, w3)"
    using a
    by (simp add: delay_us_small HAL_GPIO_ReadPin_def tick_def w1_def w3_def r_def
        ack_polls_end_def ack_high_read_def add.assoc)
  from poll_while_high_returns [OF a, of 100 w3] obtain m t2 where
    m: "m \<le> 100" and hi2: "\<forall>i<m. line e (clock w3 + poll_period e * i)"
    and stop2: "m = 100 \<or> \<not> line e (clock w3 + poll_period e * m)"
    and p2: "poll_while_high e 100 w3 = Some (t2, w3\<lparr>clock := clock w3 + poll_period e * m + access e\<rparr>)"
    by auto
  have p1': "poll_while_high e 100 w = Some (t1, w1)"
    using p1 by (simp add: w1_def)
  have "DHT11_CheckResponse e w = Some (r, w3\<lparr>clock := clock w3 + poll_period e * m + access e\<rparr>)"
    unfolding DHT11_CheckResponse_def
    by (simp only: p1' mid p2 Option.bind.bind_lunit prod.case)
  then have "DHT11_CheckResponse e w
      = Some (r, w\<lparr>clock := ack_polls_end e w n + poll_period e * m + access e\<rparr>)"
    by (simp add: w3_def)
  then show ?thesis
    using n m hi stop hi2 stop2 unfolding r_def w3_def
    by (intro exI [where x = n] exI [where x = m]) simp
qed

section \<open>Start signal and a silent sensor\<close>

lemma Start_returns:
  assumes "0 < access e" "access e < 2 ^ 31"
  shows "DHT11_Start e w
     = Some (w\<lparr>clock := clock w + start_duration e, trace := trace w @ start_trace e (clock w)\<rparr>)"
  using assms
  by (simp add: DHT11_Start_def Let_def delay_us_small DHT11_SetPinOutput_def DHT11_SetPinInput_def
      HAL_GPIO_Init_def HAL_GPIO_WritePin_def HAL_Delay_def emit_def tick_def start_trace_def
      start_duration_def ms_cycles_def)

lemma map_snd_start_trace: "map snd (start_trace e t) = start_calls"
  by (simp add: start_trace_def start_calls_def)

lemma no_response_cycle:
  assumes a: "0 < access e" "access e < 2 ^ 31"
    and idle: "\<forall>t. release_instant e w \<le> t \<and> t \<le> release_instant e w + 100 * poll_period e + access e
                 \<longrightarrow> line e t"
  shows "\<exists>m\<le>100.
           (m = 100 \<or> \<not> line e (release_instant e w + 100 * poll_period e + 2 * access e + poll_period e * m))
         \<and> DHT11_CheckResponse e
               (w\<lparr>clock := release_instant e w,
                  trace := trace w @ (clock w, Hal_Delay 1) # start_trace e (clock w + ms_cycles e)\<rparr>)
             = Some (0, w\<lparr>clock := release_instant e w + 100 * poll_period e + 3 * access e + poll_period e * m,
                  trace := trace w @ (clock w, Hal_Delay 1) # start_trace e (clock w + ms_cycles e)\<rparr>)
         \<and> ReadAndDisplayDHT11 e w
             = Some (w\<lparr>clock := release_instant e w + 100 * poll_period e + 3 * access e + poll_period e * m,
                  trace := trace w @ (clock w, Hal_Delay 1) # start_trace e (clock w + ms_cycles e)\<rparr>)"
proof -
  define w1 where "w1 = w\<lparr>clock := release_instant e w,
                  trace := trace w @ (clock w, Hal_Delay 1) # start_trace e (clock w + ms_cycles e)\<rparr>"
  have st: "DHT11_Start e (HAL_Delay e 1 w) = Some w1"
    using a by (simp add: Start_returns HAL_Delay_def emit_def w1_def release_instant_def ms_cycles_def)
  have c1: "clock w1 = release_instant e w"
    by (simp add: w1_def)
  from CheckResponse_returns [OF a, of w1] obtain n m where
    n: "n \<le> 100" and m: "m \<le> 100"
    and stop: "n = 100 \<or> \<not> line e (clock w1 + poll_period e * n)"
    and stop2: "m = 100 \<or> \<not> line e (ack_polls_end e w1 n + poll_period e * m)"
    and cr: "DHT11_CheckResponse e w1
               = Some (if \<not> line e (ack_low_read e w1 n) \<and> line e (ack_high_read e w1 n) then 1 else 0,
                       w1\<lparr>clock := ack_polls_end e w1 n + poll_period e * m + access e\<rparr>)"
    by blast
  have "poll_period e * n \<le> 100 * poll_period e"
    using n by simp
  then have "release_instant e w \<le> clock w1 + poll_period e * n
      \<and> clock w1 + poll_period e * n \<le> release_instant e w + 100 * poll_period e + access e"
    unfolding c1 by linarith
  then have "line e (clock w1 + poll_period e * n)"
    using idle by blast
  then have n100: "n = 100"
    using stop by simp
  have low: "line e (ack_low_read e w1 n)"
    using idle by (simp add: ack_low_read_def n100 c1)
  have ape: "ack_polls_end e w1 n = release_instant e w + 100 * poll_period e + 2 * access e"
    using low by (simp add: ack_polls_end_def) (simp add: ack_low_read_def n100 c1)
  have cr': "DHT11_CheckResponse e w1
      = Some (0, w1\<lparr>clock := release_instant e w + 100 * poll_period e + 3 * access e + poll_period e * m\<rparr>)"
    using cr low by (simp add: ape)
  have "ReadAndDisplayDHT11 e w
      = Some (w1\<lparr>clock := release_instant e w + 100 * poll_period e + 3 * access e + poll_period e * m\<rparr>)"
    unfolding ReadAndDisplayDHT11_def Let_def
    by (simp only: st cr' Option.bind.bind_lunit prod.case) simp
  moreover have "m = 100 \<or> \<not> line e (release_instant e w + 100 * poll_period e + 2 * access e + poll_period e * m)"
    using stop2 by (simp add: ape)
  ultimately show ?thesis
    using m cr' unfolding w1_def
    by (intro exI [where x = m]) simp
qed

lemma ReadByte_stuck_low:
  assumes "\<forall>t\<ge>clock w. \<not> line e t"
  shows "DHT11_ReadByte e w = None"
proof -
  have "wait_while_pin e False w = None"
    using assms by (intro wait_while_pin_stuck) simp
  then show ?thesis
    unfolding DHT11_ReadByte_def by (subst DHT11_ReadByte_loop.simps) simp
qed

lemma ReadByte_stuck_high:
  assumes a: "0 < access e" "access e < 2 ^ 31"
    and "\<forall>t\<ge>clock w. line e t"
  shows "DHT11_ReadByte e w = None"
proof -
  have "wait_while_pin e False w = Some (w\<lparr>clock := clock w + access e * (0 + 1)\<rparr>)"
    using assms(3) by (intro wait_while_pin_steps) simp_all
  moreover have "wait_while_pin e True
      (snd (HAL_GPIO_ReadPin e (w\<lparr>clock := clock w + access e + delay_cycles e 40\<rparr>))) = None"
    using assms(3) by (intro wait_while_pin_stuck) (simp add: HAL_GPIO_ReadPin_def tick_def)
  ultimately show ?thesis
    unfolding DHT11_ReadByte_def using a
    by (subst DHT11_ReadByte_loop.simps) (simp add: delay_us_small Let_def)
qed

section \<open>When the whole cycle returns\<close>

lemma ReadByte_loop_returns:
  assumes "0 < access e" "access e < 2 ^ 31"
    and "\<forall>level w0. wait_while_pin e level w0 \<noteq> None"
  shows "DHT11_ReadByte_loop e i byte w \<noteq> None"
  using assms
proof (induction e i byte w rule: DHT11_ReadByte_loop.induct)
  case (1 e i byte w)
  show ?case
  proof (cases "i < 8")
    case True
    obtain w1 where s1: "wait_while_pin e False w = Some w1"
      using "1.prems"(3) by fastforce
    define w2 where "w2 = w1\<lparr>clock := clock w1 + delay_cycles e 40\<rparr>"
    have s2: "delay_us e 40 w1 = Some w2"
      using "1.prems" by (simp add: delay_us_small w2_def)
    obtain w4 where s4: "wait_while_pin e True (snd (HAL_GPIO_ReadPin e w2)) = Some w4"
      using "1.prems"(3) by fastforce
    have "DHT11_ReadByte_loop e (i + 1)
            (if fst (HAL_GPIO_ReadPin e w2) then byte OR ucast (bit_mask i)
             else byte AND ucast (NOT (bit_mask i))) w4 \<noteq> None"
      using "1.IH" [OF True s1 s2 refl s4 "1.prems"] .
    then show ?thesis
      using True s1 s2 s4 by (subst DHT11_ReadByte_loop.simps) (simp add: Let_def)
  next
    case False
    then show ?thesis
      by (subst DHT11_ReadByte_loop.simps) simp
  qed
qed

lemma ReadAndDisplayDHT11_returns:
  assumes a: "0 < access e" "access e < 2 ^ 31"
    and waits: "\<forall>level w0. wait_while_pin e level w0 \<noteq> None"
  shows "ReadAndDisplayDHT11 e w \<noteq> None"
proof -
  have rb: "\<And>w. \<exists>b w'. DHT11_ReadByte e w = Some (b, w')"
    using ReadByte_loop_returns [OF a waits] by (fastforce simp: DHT11_ReadByte_def)
  obtain w1 where st: "DHT11_Start e (HAL_Delay e 1 w) = Some w1"
    using a by (simp add: Start_returns)
  obtain r w2 where cr: "DHT11_CheckResponse e w1 = Some (r, w2)"
    using CheckResponse_returns [OF a, of w1] by blast
  obtain b0 w3 where r0: "DHT11_ReadByte e w2 = Some (b0, w3)" using rb by blast
  obtain b1 w4 where r1: "DHT11_ReadByte e w3 = Some (b1, w4)" using rb by blast
  obtain b2 w5 where r2: "DHT11_ReadByte e w4 = Some (b2, w5)" using rb by blast
  obtain b3 w6 where r3: "DHT11_ReadByte e w5 = Some (b3, w6)" using rb by blast
  obtain b4 w7 where r4: "DHT11_ReadByte e w6 = Some (b4, w7)" using rb by blast
  show ?thesis
    unfolding ReadAndDisplayDHT11_def Let_def
    by (simp only: st cr r0 r1 r2 r3 r4 Option.bind.bind_lunit prod.case) simp
qed

section \<open>The byte loop against the specification\<close>

lemma small_index:
  fixes i :: "8 word"
  assumes "i < 8"
  shows "i \<in> {0, 1, 2, 3, 4, 5, 6, 7}"
proof (cases i)
  case (1 n)
  then have "n < 8"
    using assms by (simp add: word_less_nat_alt unat_of_nat)
  then have "n \<in> {0, 1, 2, 3, 4, 5, 6, 7}"
    by auto
  then show ?thesis
    using 1(1) by auto
qed

lemma mask_set:
  assumes "i < 8"
  shows "(ucast (bit_mask i) :: 8 word) = push_bit (7 - unat i) 1"
  using small_index [OF assms] by (auto simp: bit_mask_def)

lemma mask_clear:
  assumes "i < 8"
  shows "(ucast (NOT (bit_mask i)) :: 8 word) = NOT (push_bit (7 - unat i) 1)"
  using small_index [OF assms] by (auto simp: bit_mask_def)

lemma shift_in_one:
  fixes acc :: "8 word"
  shows "push_bit (Suc m) acc OR push_bit m 1 = push_bit m (2 * acc + 1)"
proof -
  have "push_bit (Suc m) acc OR push_bit m 1 = push_bit m (2 * acc OR 1)"
    by (simp add: push_bit_double mult.commute)
  also have "2 * acc OR 1 = 2 * acc + 1"
    by (simp add: or_one_eq)
  finally show ?thesis .
qed

lemma shift_in_zero:
  fixes acc :: "8 word"
  shows "push_bit (Suc m) acc AND NOT (push_bit m 1) = push_bit m (2 * acc)"
proof -
  have "push_bit m (2 * acc) AND push_bit m 1 = push_bit m (2 * acc AND 1)"
    by simp
  also have "2 * acc AND 1 = 0"
    by (simp add: and_one_eq mod_2_eq_odd)
  finally have disj: "push_bit m (2 * acc) AND push_bit m 1 = 0"
    by simp
  have "push_bit m (2 * acc) AND NOT (push_bit m 1) = push_bit m (2 * acc)"
  proof (rule bit_eqI)
    fix n
    have "bit (push_bit m (2 * acc) AND push_bit m 1) n = bit (0 :: 8 word) n"
      using disj by simp
    then have "\<not> (bit (push_bit m (2 * acc)) n \<and> bit (push_bit m (1 :: 8 word)) n)"
      unfolding bit_and_iff by simp
    then show "bit (push_bit m (2 * acc) AND NOT (push_bit m 1)) n = bit (push_bit m (2 * acc)) n"
      by (auto simp: bit_and_iff bit_not_iff dest: bit_imp_possible_bit)
  qed
  then show ?thesis
    by (simp add: mult.commute)
qed

lemma loop_refines:
  assumes "8 - unat i = k" and "unat i \<le> 8"
  shows "DHT11_ReadByte_loop e i (push_bit k acc) w
       = map_option (\<lambda>(bs, w'). (foldl (\<lambda>acc b. 2 * acc + of_bool b) acc bs, w')) (decode_bits e k w)"
  using assms
proof (induction k arbitrary: i acc w)
  case 0
  then have "unat i = 8" by simp
  then have "\<not> i < 8" by (simp add: word_less_nat_alt)
  then show ?case
    by (subst DHT11_ReadByte_loop.simps) simp
next
  case (Suc k)
  let ?step = "\<lambda>acc b. 2 * acc + (of_bool b :: 8 word)"
  let ?f = "\<lambda>acc. (\<lambda>(bs, w'). (foldl ?step acc bs, w'))"
  have ui: "unat i < 8" and k: "7 - unat i = k"
    using Suc.prems by simp_all
  then have i8: "i < 8"
    by (simp add: word_less_nat_alt)
  have "unat (i + 1) = unat i + 1"
    using ui by (simp add: unat_word_ariths)
  then have next_i: "8 - unat (i + 1) = k" "unat (i + 1) \<le> 8"
    using ui k by simp_all
  have set_bit: "push_bit (Suc k) acc OR (ucast (bit_mask i) :: 8 word) = push_bit k (2 * acc + 1)"
    unfolding mask_set [OF i8] k by (rule shift_in_one)
  have clear_bit: "push_bit (Suc k) acc AND (ucast (NOT (bit_mask i)) :: 8 word) = push_bit k (2 * acc)"
    unfolding mask_clear [OF i8] k by (rule shift_in_zero)
  have byte': "(if b then push_bit (Suc k) acc OR (ucast (bit_mask i) :: 8 word)
                else push_bit (Suc k) acc AND (ucast (NOT (bit_mask i)) :: 8 word))
               = push_bit k (?step acc b)" for b
    using set_bit clear_bit by (cases b) (simp_all del: push_bit_Suc)
  show ?case
  proof (cases "wait_while_pin e False w")
    case None
    then show ?thesis
      using i8 by (subst DHT11_ReadByte_loop.simps) (simp add: decode_bit_def del: push_bit_Suc)
  next
    case (Some w1)
    note s1 = this
    show ?thesis
    proof (cases "delay_us e 40 w1")
      case None
      then show ?thesis
        using i8 s1 by (subst DHT11_ReadByte_loop.simps) (simp add: decode_bit_def del: push_bit_Suc)
    next
      case (Some w2)
      note s2 = this
      show ?thesis
      proof (cases "wait_while_pin e True (tick e w2)")
        case None
        then show ?thesis
          using i8 s1 s2
          by (subst DHT11_ReadByte_loop.simps)
             (simp add: decode_bit_def HAL_GPIO_ReadPin_def Let_def del: push_bit_Suc)
      next
        case (Some w4)
        have lhs: "DHT11_ReadByte_loop e i (push_bit (Suc k) acc) w
            = DHT11_ReadByte_loop e (i + 1) (push_bit k (?step acc (line e (clock w2)))) w4"
          using i8 s1 s2 Some byte' [of "line e (clock w2)"]
          by (subst DHT11_ReadByte_loop.simps)
             (simp add: HAL_GPIO_ReadPin_def Let_def del: push_bit_Suc)
        have db: "decode_bit e w = Some (line e (clock w2), w4)"
          using s1 s2 Some by (simp add: decode_bit_def)
        have "DHT11_ReadByte_loop e (i + 1) (push_bit k (?step acc (line e (clock w2)))) w4
            = map_option (?f (?step acc (line e (clock w2)))) (decode_bits e k w4)"
          by (rule Suc.IH [OF next_i])
        also have "\<dots> = map_option (?f acc) (decode_bits e (Suc k) w)"
          using db by (cases "decode_bits e k w4") auto
        finally show ?thesis
          using lhs by simp
      qed
    qed
  qed
qed

lemma ReadByte_refines: "DHT11_ReadByte e w = decode_byte e w"
  using loop_refines [of 0 8 e 0 w]
  by (simp add: DHT11_ReadByte_def decode_byte_def msb_first_def)

lemma decode_bit_timed:
  assumes a: "0 < access e" "access e < 2 ^ 31"
    and lows: "\<forall>i<n. \<not> line e (clock w + access e * i)"
    and rise: "line e (clock w + access e * n)"
    and highs: "\<forall>i<m. line e (sample_instant e (clock w + access e * n) + access e + access e * i)"
    and fall: "\<not> line e (sample_instant e (clock w + access e * n) + access e + access e * m)"
  shows "decode_bit e w
       = Some (line e (sample_instant e (clock w + access e * n)),
               w\<lparr>clock := sample_instant e (clock w + access e * n) + access e * (m + 2)\<rparr>)"
proof -
  let ?ts = "sample_instant e (clock w + access e * n)"
  have s1: "wait_while_pin e False w = Some (w\<lparr>clock := clock w + access e * (n + 1)\<rparr>)"
    using lows rise by (intro wait_while_pin_steps) simp_all
  have s2: "delay_us e 40 (w\<lparr>clock := clock w + access e * (n + 1)\<rparr>) = Some (w\<lparr>clock := ?ts\<rparr>)"
    using a by (simp add: delay_us_small sample_instant_def add.assoc)
  have s3: "wait_while_pin e True (tick e (w\<lparr>clock := ?ts\<rparr>))
      = Some ((tick e (w\<lparr>clock := ?ts\<rparr>))\<lparr>clock := clock (tick e (w\<lparr>clock := ?ts\<rparr>)) + access e * (m + 1)\<rparr>)"
    using highs fall by (intro wait_while_pin_steps) (simp_all add: tick_def)
  show ?thesis
    unfolding decode_bit_def
    by (simp only: s1 s2 s3 Option.bind.bind_lunit) (simp add: tick_def add.assoc)
qed

section \<open>Reading the log\<close>





section \<open>Frame validation\<close>

lemma validate_and_report_success_iff:
  "(validate_and_report e b0 b1 b2 b3 b4 w
      = printf (reading_line b0 b1 b2 b3) (HAL_GPIO_TogglePin e w))
   = (unat b4 = unat b0 + unat b1 + unat b2 + unat b3)"
proof -
  have "uint b0 + uint b1 + uint b2 + uint b3 = int (unat b0 + unat b1 + unat b2 + unat b3)"
    by simp
  moreover have "uint b4 = int (unat b4)"
    by simp
  ultimately have "(uint b4 = uint b0 + uint b1 + uint b2 + uint b3)
      = (unat b4 = unat b0 + unat b1 + unat b2 + unat b3)"
    by (simp only: of_nat_eq_iff)
  moreover have "printf checksum_error_line w
      \<noteq> printf (reading_line b0 b1 b2 b3) (HAL_GPIO_TogglePin e w)"
  proof
    assume "printf checksum_error_line w
      = printf (reading_line b0 b1 b2 b3) (HAL_GPIO_TogglePin e w)"
    then have "length (trace (printf checksum_error_line w))
      = length (trace (printf (reading_line b0 b1 b2 b3) (HAL_GPIO_TogglePin e w)))"
      by simp
    then show False
      by (simp add: printf_def emit_def HAL_GPIO_TogglePin_def tick_def)
  qed
  ultimately show ?thesis
    by (simp add: validate_and_report_def)
qed

section \<open>Decoding the waveform of a sensor\<close>

lemma dht11_bits_low_start: "t < 50 * k \<Longrightarrow> \<not> dht11_bits k bs t"
  by (cases bs) simp_all

lemma dht11_bits_append:
  "bits_duration k bs \<le> t \<Longrightarrow> dht11_bits k (bs @ rest) t = dht11_bits k rest (t - bits_duration k bs)"
proof (induction bs arbitrary: t)
  case Nil
  then show ?case by simp
next
  case (Cons b bs)
  let ?d = "50 * k + (if b then 70 * k else 27 * k)"
  have "bits_duration k bs \<le> t - ?d" and "?d \<le> t"
    using Cons.prems by (simp_all split: if_splits)
  then show ?case
    using Cons.IH [of "t - ?d"] by (simp split: if_splits)
qed

lemma first_poll:
  fixes p c X :: nat
  assumes "0 < p" and "c \<le> X"
  shows "\<exists>n. (\<forall>i<n. c + p * i < X) \<and> X \<le> c + p * n \<and> c + p * n < X + p"
proof -
  define n where "n = (X - c + p - 1) div p"
  have lo: "p * n \<le> X - c + p - 1"
    by (simp add: n_def)
  have hi: "X - c + p - 1 < p * n + p"
    unfolding n_def using assms(1) by (metis add.commute dividend_less_times_div)
  have "\<forall>i<n. c + p * i < X"
  proof (intro allI impI)
    fix i assume "i < n"
    then have "p * i + p \<le> p * n"
      by (metis Suc_leI mult_Suc_right mult_le_mono2 add.commute)
    then show "c + p * i < X"
      using lo assms by linarith
  qed
  moreover have "X \<le> c + p * n" and "c + p * n < X + p"
    using lo hi assms by linarith+
  ultimately show ?thesis
    by blast
qed

lemma wait_edge:
  assumes a: "0 < access e"
    and before: "\<forall>t. clock w \<le> t \<and> t < X \<longrightarrow> line e t = level"
    and after: "\<forall>t. X \<le> t \<and> t < X + access e \<longrightarrow> line e t \<noteq> level"
    and c: "clock w \<le> X"
  shows "\<exists>tf. X \<le> tf \<and> tf < X + access e
            \<and> wait_while_pin e level w = Some (w\<lparr>clock := tf + access e\<rparr>)"
proof -
  from first_poll [OF a c] obtain n where
    n1: "\<forall>i<n. clock w + access e * i < X"
    and n2: "X \<le> clock w + access e * n" and n3: "clock w + access e * n < X + access e"
    by blast
  have "\<forall>i<n. line e (clock w + access e * i) = level"
    using n1 before by simp
  moreover have "line e (clock w + access e * n) \<noteq> level"
    using n2 n3 after by simp
  ultimately have "wait_while_pin e level w = Some (w\<lparr>clock := clock w + access e * (n + 1)\<rparr>)"
    by (rule wait_while_pin_steps)
  then have "wait_while_pin e level w = Some (w\<lparr>clock := (clock w + access e * n) + access e\<rparr>)"
    by (simp add: add.assoc)
  then show ?thesis
    using n2 n3 by blast
qed

lemma decode_bit_ideal:
  assumes a: "0 < access e" "access e < 2 ^ 31"
    and fast: "access e \<le> 5 * us_cycles e"
    and wave: "\<forall>t\<ge>T. line e t = dht11_bits (us_cycles e) (b # bs) (t - T)"
    and c: "T \<le> clock w" "clock w \<le> T + 50 * us_cycles e"
  shows "\<exists>c'. decode_bit e w = Some (b, w\<lparr>clock := c'\<rparr>)
            \<and> T + bits_duration (us_cycles e) [b] \<le> c'
            \<and> c' \<le> T + bits_duration (us_cycles e) [b] + 50 * us_cycles e"
proof -
  define k where "k = us_cycles e"
  define H where "H = (if b then 70 * k else 27 * k)"
  let ?a = "access e"
  have ak: "?a \<le> 5 * k" using fast by (simp add: k_def)
  have H27: "27 * k \<le> H" "H \<le> 70 * k" by (simp_all add: H_def)
  have low: "line e t = False" if "T \<le> t" "t < T + 50 * k" for t
  proof -
    have "line e t = dht11_bits k (b # bs) (t - T)" using wave that by (simp add: k_def)
    then show ?thesis using that by simp
  qed
  have high: "line e t = True" if "T + 50 * k \<le> t" "t < T + 50 * k + H" for t
  proof -
    have "line e t = dht11_bits k (b # bs) (t - T)" using wave that by (simp add: k_def)
    moreover have "\<not> t - T < 50 * k" and "t - T < 50 * k + H" using that by linarith+
    ultimately show ?thesis by (simp add: H_def)
  qed
  have next_low: "line e t = False" if "T + 50 * k + H \<le> t" "t < T + 50 * k + H + 50 * k" for t
  proof -
    have "line e t = dht11_bits k (b # bs) (t - T)" using wave that by (simp add: k_def)
    moreover have "\<not> t - T < 50 * k" and "\<not> t - T < 50 * k + H" using that by linarith+
    moreover have "t - T - (50 * k + H) < 50 * k" using that by linarith
    ultimately show ?thesis
      using dht11_bits_low_start [of "t - T - (50 * k + H)" k bs] by (simp add: H_def)
  qed
  \<comment> \<open>wait for the line to go high\<close>
  have "\<exists>th. T + 50 * k \<le> th \<and> th < T + 50 * k + ?a
          \<and> wait_while_pin e False w = Some (w\<lparr>clock := th + ?a\<rparr>)"
  proof (rule wait_edge [OF a(1)])
    show "\<forall>t. clock w \<le> t \<and> t < T + 50 * k \<longrightarrow> line e t = False"
      using low c by simp
    show "\<forall>t. T + 50 * k \<le> t \<and> t < T + 50 * k + ?a \<longrightarrow> line e t \<noteq> False"
    proof (intro allI impI)
      fix t assume "T + 50 * k \<le> t \<and> t < T + 50 * k + ?a"
      then have "T + 50 * k \<le> t" "t < T + 50 * k + H" using ak H27 by linarith+
      then show "line e t \<noteq> False" using high by simp
    qed
    show "clock w \<le> T + 50 * k" using c by (simp add: k_def)
  qed
  then obtain th where th: "T + 50 * k \<le> th" "th < T + 50 * k + ?a"
    and s1: "wait_while_pin e False w = Some (w\<lparr>clock := th + ?a\<rparr>)"
    by blast
  \<comment> \<open>the discrimination delay and the sample\<close>
  define ts where "ts = th + ?a + delay_cycles e 40"
  have dc: "40 * k + ?a \<le> delay_cycles e 40" "delay_cycles e 40 < 40 * k + 3 * ?a"
    using delay_cycles_small [OF a(1), of 40] by (simp_all add: k_def)
  have ts: "T + 90 * k + 2 * ?a \<le> ts" "ts < T + 90 * k + 5 * ?a"
    using th dc by (simp_all add: ts_def)
  have s2: "delay_us e 40 (w\<lparr>clock := th + ?a\<rparr>) = Some (w\<lparr>clock := ts\<rparr>)"
    using a by (simp add: delay_us_small ts_def)
  show ?thesis
  proof (cases b)
    case True
    then have H: "H = 70 * k" by (simp add: H_def)
    have sample: "line e ts = True"
      using high [of ts] ts ak H by simp
    have "\<exists>tf. T + 120 * k \<le> tf \<and> tf < T + 120 * k + ?a
          \<and> wait_while_pin e True (tick e (w\<lparr>clock := ts\<rparr>))
              = Some ((tick e (w\<lparr>clock := ts\<rparr>))\<lparr>clock := tf + ?a\<rparr>)"
    proof (rule wait_edge [OF a(1)])
      show "\<forall>t. clock (tick e (w\<lparr>clock := ts\<rparr>)) \<le> t \<and> t < T + 120 * k \<longrightarrow> line e t = True"
        using high ts H by (simp add: tick_def)
      show "\<forall>t. T + 120 * k \<le> t \<and> t < T + 120 * k + ?a \<longrightarrow> line e t \<noteq> True"
      proof (intro allI impI)
        fix t assume "T + 120 * k \<le> t \<and> t < T + 120 * k + ?a"
        then have "T + 50 * k + H \<le> t" "t < T + 50 * k + H + 50 * k" using ak H by linarith+
        then show "line e t \<noteq> True" using next_low by simp
      qed
      show "clock (tick e (w\<lparr>clock := ts\<rparr>)) \<le> T + 120 * k"
        using ts ak by (simp add: tick_def)
    qed
    then obtain tf where tf: "T + 120 * k \<le> tf" "tf < T + 120 * k + ?a"
      and s3: "wait_while_pin e True (tick e (w\<lparr>clock := ts\<rparr>))
              = Some ((tick e (w\<lparr>clock := ts\<rparr>))\<lparr>clock := tf + ?a\<rparr>)"
      by blast
    have "decode_bit e w = Some (b, w\<lparr>clock := tf + ?a\<rparr>)"
      unfolding decode_bit_def
      by (simp only: s1 s2 s3 Option.bind.bind_lunit) (simp add: tick_def sample True)
    moreover have "T + bits_duration (us_cycles e) [b] \<le> tf + ?a"
      and "tf + ?a \<le> T + bits_duration (us_cycles e) [b] + 50 * us_cycles e"
      using tf ak True by (simp_all add: k_def)
    ultimately show ?thesis by blast
  next
    case False
    then have H: "H = 27 * k" by (simp add: H_def)
    have sample: "line e ts = False"
      using next_low [of ts] ts ak H by simp
    have after: "line e (ts + ?a) = False"
      using next_low [of "ts + ?a"] ts ak H by simp
    have s3: "wait_while_pin e True (tick e (w\<lparr>clock := ts\<rparr>))
        = Some ((tick e (w\<lparr>clock := ts\<rparr>))\<lparr>clock := clock (tick e (w\<lparr>clock := ts\<rparr>)) + ?a * (0 + 1)\<rparr>)"
      using after by (intro wait_while_pin_steps) (simp_all add: tick_def)
    have "decode_bit e w = Some (b, w\<lparr>clock := ts + 2 * ?a\<rparr>)"
      unfolding decode_bit_def
      by (simp only: s1 s2 s3 Option.bind.bind_lunit) (simp add: tick_def sample False)
    moreover have "T + bits_duration (us_cycles e) [b] \<le> ts + 2 * ?a"
      and "ts + 2 * ?a \<le> T + bits_duration (us_cycles e) [b] + 50 * us_cycles e"
      using ts ak False by (simp_all add: k_def)
    ultimately show ?thesis by blast
  qed
qed

lemma decode_bits_ideal:
  assumes a: "0 < access e" "access e < 2 ^ 31"
    and fast: "access e \<le> 5 * us_cycles e"
  shows "\<lbrakk>\<forall>t\<ge>T. line e t = dht11_bits (us_cycles e) (bs @ rest) (t - T);
          T \<le> clock w; clock w \<le> T + 50 * us_cycles e\<rbrakk>
       \<Longrightarrow> \<exists>c'. decode_bits e (length bs) w = Some (bs, w\<lparr>clock := c'\<rparr>)
             \<and> T + bits_duration (us_cycles e) bs \<le> c'
             \<and> c' \<le> T + bits_duration (us_cycles e) bs + 50 * us_cycles e"
proof (induction bs arbitrary: T w)
  case Nil
  have "w = w\<lparr>clock := clock w\<rparr>" by simp
  then show ?case
    using Nil.prems by (metis add.right_neutral bits_duration.simps(1) decode_bits.simps(1) list.size(3))
next
  case (Cons b bs)
  let ?k = "us_cycles e"
  let ?d = "bits_duration ?k [b]"
  from decode_bit_ideal [OF a fast, of T b "bs @ rest" w] Cons.prems obtain c1 where
    db: "decode_bit e w = Some (b, w\<lparr>clock := c1\<rparr>)"
    and c1: "T + ?d \<le> c1" "c1 \<le> T + ?d + 50 * ?k"
    by auto
  have wave': "\<forall>t\<ge>T + ?d. line e t = dht11_bits ?k (bs @ rest) (t - (T + ?d))"
  proof (intro allI impI)
    fix t assume t: "T + ?d \<le> t"
    then have "line e t = dht11_bits ?k ((b # bs) @ rest) (t - T)"
      using Cons.prems(1) by simp
    also have "\<dots> = dht11_bits ?k ([b] @ (bs @ rest)) (t - T)"
      by simp
    also have "\<dots> = dht11_bits ?k (bs @ rest) (t - T - ?d)"
      using t by (intro dht11_bits_append) linarith
    finally show "line e t = dht11_bits ?k (bs @ rest) (t - (T + ?d))"
      by (simp add: diff_diff_eq)
  qed
  from Cons.IH [OF wave', of "w\<lparr>clock := c1\<rparr>"] c1 obtain c' where
    rest: "decode_bits e (length bs) (w\<lparr>clock := c1\<rparr>) = Some (bs, w\<lparr>clock := c'\<rparr>)"
    and c': "T + ?d + bits_duration ?k bs \<le> c'" "c' \<le> T + ?d + bits_duration ?k bs + 50 * ?k"
    by auto
  have "decode_bits e (length (b # bs)) w = Some (b # bs, w\<lparr>clock := c'\<rparr>)"
    using db rest by simp
  moreover have "bits_duration ?k (b # bs) = ?d + bits_duration ?k bs"
    by simp
  ultimately show ?case
    using c' by (metis add.assoc)
qed

lemma drop_bit_step:
  fixes b :: "8 word"
  shows "2 * drop_bit (Suc n) b + of_bool (bit b n) = drop_bit n b"
proof -
  have "2 * (drop_bit n b div 2) + drop_bit n b mod 2 = drop_bit n b"
    by (rule mult_div_mod_eq)
  moreover have "drop_bit n b div 2 = drop_bit (Suc n) b"
    by (simp add: drop_bit_Suc drop_bit_half)
  moreover have "drop_bit n b mod 2 = of_bool (bit b n)"
    by (simp add: mod_2_eq_odd bit_iff_odd_drop_bit)
  ultimately show ?thesis
    by simp
qed

lemma horner_drop_bit:
  fixes b :: "8 word"
  shows "foldl (\<lambda>acc c. 2 * acc + of_bool c) (drop_bit n b) (map (bit b) (rev [0..<n])) = b"
proof (induction n)
  case 0
  then show ?case by simp
next
  case (Suc n)
  then show ?case by (simp add: drop_bit_step del: drop_bit_Suc)
qed

lemma msb_first_byte_bits: "msb_first (byte_bits b) = b"
proof -
  have "drop_bit 8 b = 0"
    by (rule bit_eqI) (simp add: bit_simps)
  then show ?thesis
    using horner_drop_bit [of 8 b] by (simp add: msb_first_def byte_bits_def)
qed

lemma length_byte_bits: "length (byte_bits b) = 8"
  by (simp add: byte_bits_def)

lemma ReadByte_ideal:
  assumes a: "0 < access e" "access e < 2 ^ 31"
    and fast: "access e \<le> 5 * us_cycles e"
    and wave: "\<forall>t\<ge>T. line e t = dht11_bits (us_cycles e) (byte_bits b @ rest) (t - T)"
    and c: "T \<le> clock w" "clock w \<le> T + 50 * us_cycles e"
  shows "\<exists>c' T'. DHT11_ReadByte e w = Some (b, w\<lparr>clock := c'\<rparr>)
            \<and> T' \<le> c' \<and> c' \<le> T' + 50 * us_cycles e
            \<and> (\<forall>t\<ge>T'. line e t = dht11_bits (us_cycles e) rest (t - T'))"
proof -
  let ?k = "us_cycles e"
  let ?D = "bits_duration ?k (byte_bits b)"
  from decode_bits_ideal [OF a fast wave c] obtain c' where
    d: "decode_bits e 8 w = Some (byte_bits b, w\<lparr>clock := c'\<rparr>)"
    and c': "T + ?D \<le> c'" "c' \<le> T + ?D + 50 * ?k"
    by (auto simp: length_byte_bits)
  have "DHT11_ReadByte e w = Some (b, w\<lparr>clock := c'\<rparr>)"
    using d by (simp add: ReadByte_refines decode_byte_def msb_first_byte_bits)
  moreover have "\<forall>t\<ge>T + ?D. line e t = dht11_bits ?k rest (t - (T + ?D))"
  proof (intro allI impI)
    fix t assume t: "T + ?D \<le> t"
    then have "line e t = dht11_bits ?k (byte_bits b @ rest) (t - T)"
      using wave by simp
    also have "\<dots> = dht11_bits ?k rest (t - T - ?D)"
      using t by (intro dht11_bits_append) linarith
    finally show "line e t = dht11_bits ?k rest (t - (T + ?D))"
      by (simp add: diff_diff_eq)
  qed
  ultimately show ?thesis
    using c' by blast
qed

section \<open>A whole cycle with a sensor that answers\<close>

lemma poll_count:
  fixes p j k :: nat
  assumes "p * j < N * k + p" and "k \<le> p"
  shows "j \<le> N"
proof (rule ccontr)
  assume "\<not> j \<le> N"
  then have "Suc N \<le> j" by simp
  then have "p * Suc N \<le> p * j" by (rule mult_le_mono2)
  then have "N * p + p \<le> p * j" by (simp add: mult.commute)
  moreover have "N * k \<le> N * p" using assms(2) by (rule mult_le_mono2)
  ultimately show False using assms(1) by linarith
qed

lemma poll_until_low:
  assumes p: "0 < p"
    and c: "c \<le> X"
    and high: "\<forall>t. c \<le> t \<and> t < X \<longrightarrow> line e t"
    and low: "\<forall>t. X \<le> t \<and> t < X + p \<longrightarrow> \<not> line e t"
    and budget: "X + p \<le> c + N * k + p" "k \<le> p" "N < 100"
    and polls: "\<forall>i<n. line e (c + p * i)" "n = 100 \<or> \<not> line e (c + p * n)"
  shows "X \<le> c + p * n \<and> c + p * n < X + p"
proof -
  from first_poll [OF p c] obtain j where
    j1: "\<forall>i<j. c + p * i < X" and j2: "X \<le> c + p * j" and j3: "c + p * j < X + p"
    by blast
  have "p * j < N * k + p"
    using j3 budget(1) by linarith
  then have "j \<le> N"
    using budget(2) by (rule poll_count)
  have "\<not> line e (c + p * j)"
    using low j2 j3 by simp
  then have "n \<le> j"
    using polls(1) by (metis not_le_imp_less)
  then have "n \<noteq> 100"
    using \<open>j \<le> N\<close> budget(3) by simp
  then have nl: "\<not> line e (c + p * n)"
    using polls(2) by simp
  have "p * n \<le> p * j"
    using \<open>n \<le> j\<close> by simp
  then have "c + p * n < X + p"
    using j3 by linarith
  moreover have "X \<le> c + p * n"
  proof (rule ccontr)
    assume "\<not> X \<le> c + p * n"
    then have "line e (c + p * n)" using high by simp
    then show False using nl by simp
  qed
  ultimately show ?thesis by simp
qed

lemma CheckResponse_ideal:
  assumes a: "0 < access e" "access e < 2 ^ 31"
    and fast: "access e \<le> 5 * us_cycles e"
    and wave: "line e = dht11_answer (us_cycles e) t0 frame"
    and t0: "clock w \<le> t0" "t0 \<le> clock w + 40 * us_cycles e"
  shows "\<exists>c1. DHT11_CheckResponse e w = Some (1, w\<lparr>clock := c1\<rparr>)
            \<and> t0 + 160 * us_cycles e \<le> c1 \<and> c1 \<le> t0 + 160 * us_cycles e + 50 * us_cycles e"
proof -
  define k where "k = us_cycles e"
  define P where "P = poll_period e"
  let ?a = "access e"
  have ak: "?a \<le> 5 * k" using fast by (simp add: k_def)
  have d1: "k + ?a \<le> delay_cycles e 1" "delay_cycles e 1 < k + 3 * ?a"
    using delay_cycles_small [OF a(1), of 1] by (simp_all add: k_def)
  have d80: "80 * k + ?a \<le> delay_cycles e 80" "delay_cycles e 80 < 80 * k + 3 * ?a"
    using delay_cycles_small [OF a(1), of 80] by (simp_all add: k_def)
  have P: "k + 2 * ?a \<le> P" "P < k + 4 * ?a"
    using d1 by (simp_all add: P_def poll_period_def)
  have P0: "0 < P" "k \<le> P" using P a(1) by simp_all
  have idle: "line e t" if "t < t0" for t
    using that by (simp add: wave dht11_answer_def)
  have ack_low: "\<not> line e t" if "t0 \<le> t" "t < t0 + 80 * k" for t
    using that by (simp add: wave dht11_answer_def k_def)
  have ack_high: "line e t" if "t0 + 80 * k \<le> t" "t < t0 + 160 * k" for t
    using that by (simp add: wave dht11_answer_def k_def)
  have first_low: "\<not> line e t" if "t0 + 160 * k \<le> t" "t < t0 + 160 * k + 50 * k" for t
  proof -
    have "t - (t0 + 160 * k) < 50 * k" using that by linarith
    then show ?thesis
      using that dht11_bits_low_start [of "t - (t0 + 160 * k)" k "frame_bits frame"]
      by (simp add: wave dht11_answer_def k_def)
  qed
  from CheckResponse_returns [OF a, of w] obtain n m where
    hi: "\<forall>i<n. line e (clock w + P * i)"
    and stop: "n = 100 \<or> \<not> line e (clock w + P * n)"
    and hi2: "\<forall>i<m. line e (ack_polls_end e w n + P * i)"
    and stop2: "m = 100 \<or> \<not> line e (ack_polls_end e w n + P * m)"
    and cr: "DHT11_CheckResponse e w
               = Some (if \<not> line e (ack_low_read e w n) \<and> line e (ack_high_read e w n) then 1 else 0,
                       w\<lparr>clock := ack_polls_end e w n + P * m + ?a\<rparr>)"
    unfolding P_def by blast
  define tn where "tn = clock w + P * n"
  have tn: "t0 \<le> tn \<and> tn < t0 + P"
    unfolding tn_def
  proof (rule poll_until_low [OF P0(1) t0(1) _ _ _ P0(2) _ hi stop])
    show "\<forall>t. clock w \<le> t \<and> t < t0 \<longrightarrow> line e t" using idle by simp
    show "\<forall>t. t0 \<le> t \<and> t < t0 + P \<longrightarrow> \<not> line e t"
    proof (intro allI impI)
      fix t assume "t0 \<le> t \<and> t < t0 + P"
      then have "t0 \<le> t" "t < t0 + 80 * k" using P ak by linarith+
      then show "\<not> line e t" by (rule ack_low)
    qed
    show "t0 + P \<le> clock w + 40 * k + P" using t0(2) by (simp add: k_def)
    show "(40 :: nat) < 100" by simp
  qed
  have alr: "ack_low_read e w n = tn + ?a"
    by (simp add: ack_low_read_def tn_def P_def)
  have ahr: "ack_high_read e w n = tn + 2 * ?a + delay_cycles e 80"
    by (simp add: ack_high_read_def alr)
  have l1: "\<not> line e (ack_low_read e w n)"
    unfolding alr using tn P ak by (intro ack_low) linarith+
  have l2: "line e (ack_high_read e w n)"
    unfolding ahr using tn P ak d80 by (intro ack_high) linarith+
  define E where "E = ack_polls_end e w n"
  have E: "E = tn + 3 * ?a + delay_cycles e 80"
    using l1 by (simp add: E_def ack_polls_end_def ahr)
  have Eb: "t0 + 80 * k \<le> E" "E \<le> t0 + 160 * k"
    using E tn P ak d80 by linarith+
  define tm where "tm = E + P * m"
  have tm: "t0 + 160 * k \<le> tm \<and> tm < t0 + 160 * k + P"
    unfolding tm_def
  proof (rule poll_until_low [OF P0(1) Eb(2) _ _ _ P0(2) _ hi2 [folded E_def] stop2 [folded E_def]])
    show "\<forall>t. E \<le> t \<and> t < t0 + 160 * k \<longrightarrow> line e t"
      using ack_high Eb by simp
    show "\<forall>t. t0 + 160 * k \<le> t \<and> t < t0 + 160 * k + P \<longrightarrow> \<not> line e t"
    proof (intro allI impI)
      fix t assume "t0 + 160 * k \<le> t \<and> t < t0 + 160 * k + P"
      then have "t0 + 160 * k \<le> t" "t < t0 + 160 * k + 50 * k" using P ak by linarith+
      then show "\<not> line e t" by (rule first_low)
    qed
    show "t0 + 160 * k + P \<le> E + 80 * k + P" using Eb by simp
    show "(80 :: nat) < 100" by simp
  qed
  have "DHT11_CheckResponse e w = Some (1, w\<lparr>clock := tm + ?a\<rparr>)"
    using cr l1 l2 by (simp add: tm_def E_def)
  moreover have "t0 + 160 * k \<le> tm + ?a" and "tm + ?a \<le> t0 + 160 * k + 50 * k"
    using tm P ak by linarith+
  ultimately show ?thesis
    unfolding k_def by blast
qed

lemma ideal_cycle_reads:
  fixes e :: env and w :: world
  defines "w1 \<equiv> w\<lparr>clock := release_instant e w,
                     trace := trace w @ (clock w, Hal_Delay 1) # start_trace e (clock w + ms_cycles e)\<rparr>"
  assumes a: "0 < access e" "access e < 2 ^ 31"
    and fast: "access e \<le> 5 * us_cycles e"
    and wave: "line e = dht11_answer (us_cycles e) t0 [b0, b1, b2, b3, b4]"
    and t0: "release_instant e w \<le> t0" "t0 \<le> release_instant e w + 40 * us_cycles e"
  shows "\<exists>c1 c2 c3 c4 c5 c6.
           DHT11_Start e (HAL_Delay e 1 w) = Some w1
         \<and> DHT11_CheckResponse e w1 = Some (1, w1\<lparr>clock := c1\<rparr>)
         \<and> DHT11_ReadByte e (w1\<lparr>clock := c1\<rparr>) = Some (b0, w1\<lparr>clock := c2\<rparr>)
         \<and> DHT11_ReadByte e (w1\<lparr>clock := c2\<rparr>) = Some (b1, w1\<lparr>clock := c3\<rparr>)
         \<and> DHT11_ReadByte e (w1\<lparr>clock := c3\<rparr>) = Some (b2, w1\<lparr>clock := c4\<rparr>)
         \<and> DHT11_ReadByte e (w1\<lparr>clock := c4\<rparr>) = Some (b3, w1\<lparr>clock := c5\<rparr>)
         \<and> DHT11_ReadByte e (w1\<lparr>clock := c5\<rparr>) = Some (b4, w1\<lparr>clock := c6\<rparr>)"
proof -
  let ?k = "us_cycles e"
  have st: "DHT11_Start e (HAL_Delay e 1 w) = Some w1"
    using a by (simp add: Start_returns HAL_Delay_def emit_def w1_def release_instant_def ms_cycles_def)
  have "clock w1 \<le> t0" "t0 \<le> clock w1 + 40 * ?k"
    using t0 by (simp_all add: w1_def)
  from CheckResponse_ideal [OF a fast wave this] obtain c1 where
    cr: "DHT11_CheckResponse e w1 = Some (1, w1\<lparr>clock := c1\<rparr>)"
    and c1: "t0 + 160 * ?k \<le> c1" "c1 \<le> t0 + 160 * ?k + 50 * ?k"
    by blast
  have bits: "\<forall>t\<ge>t0 + 160 * ?k. line e t
      = dht11_bits ?k (byte_bits b0 @ byte_bits b1 @ byte_bits b2 @ byte_bits b3 @ byte_bits b4 @ [])
          (t - (t0 + 160 * ?k))"
    by (simp add: wave dht11_answer_def frame_bits_def)
  from ReadByte_ideal [OF a fast bits, of "w1\<lparr>clock := c1\<rparr>"] c1 obtain c2 T2 where
    r0: "DHT11_ReadByte e (w1\<lparr>clock := c1\<rparr>) = Some (b0, w1\<lparr>clock := c2\<rparr>)"
    and c2: "T2 \<le> c2" "c2 \<le> T2 + 50 * ?k"
    and bits2: "\<forall>t\<ge>T2. line e t
      = dht11_bits ?k (byte_bits b1 @ byte_bits b2 @ byte_bits b3 @ byte_bits b4 @ []) (t - T2)"
    by auto
  from ReadByte_ideal [OF a fast bits2, of "w1\<lparr>clock := c2\<rparr>"] c2 obtain c3 T3 where
    r1: "DHT11_ReadByte e (w1\<lparr>clock := c2\<rparr>) = Some (b1, w1\<lparr>clock := c3\<rparr>)"
    and c3: "T3 \<le> c3" "c3 \<le> T3 + 50 * ?k"
    and bits3: "\<forall>t\<ge>T3. line e t
      = dht11_bits ?k (byte_bits b2 @ byte_bits b3 @ byte_bits b4 @ []) (t - T3)"
    by auto
  from ReadByte_ideal [OF a fast bits3, of "w1\<lparr>clock := c3\<rparr>"] c3 obtain c4 T4 where
    r2: "DHT11_ReadByte e (w1\<lparr>clock := c3\<rparr>) = Some (b2, w1\<lparr>clock := c4\<rparr>)"
    and c4: "T4 \<le> c4" "c4 \<le> T4 + 50 * ?k"
    and bits4: "\<forall>t\<ge>T4. line e t
      = dht11_bits ?k (byte_bits b3 @ byte_bits b4 @ []) (t - T4)"
    by auto
  from ReadByte_ideal [OF a fast bits4, of "w1\<lparr>clock := c4\<rparr>"] c4 obtain c5 T5 where
    r3: "DHT11_ReadByte e (w1\<lparr>clock := c4\<rparr>) = Some (b3, w1\<lparr>clock := c5\<rparr>)"
    and c5: "T5 \<le> c5" "c5 \<le> T5 + 50 * ?k"
    and bits5: "\<forall>t\<ge>T5. line e t = dht11_bits ?k (byte_bits b4 @ []) (t - T5)"
    by auto
  from ReadByte_ideal [OF a fast bits5, of "w1\<lparr>clock := c5\<rparr>"] c5 obtain c6 where
    r4: "DHT11_ReadByte e (w1\<lparr>clock := c5\<rparr>) = Some (b4, w1\<lparr>clock := c6\<rparr>)"
    by auto
  show ?thesis
    using st cr r0 r1 r2 r3 r4 by blast
qed

lemma ideal_cycle:
  assumes a: "0 < access e" "access e < 2 ^ 31"
    and fast: "access e \<le> 5 * us_cycles e"
    and wave: "line e = dht11_answer (us_cycles e) t0 [b0, b1, b2, b3, b4]"
    and t0: "release_instant e w \<le> t0" "t0 \<le> release_instant e w + 40 * us_cycles e"
  shows "\<exists>c. ReadAndDisplayDHT11 e w
     = Some (HAL_Delay e 2000 (validate_and_report e b0 b1 b2 b3 b4
         (w\<lparr>trace := trace w @ (clock w, Hal_Delay 1) # start_trace e (clock w + ms_cycles e),
            clock := c\<rparr>)))"
proof -
  define w1 where "w1 = w\<lparr>clock := release_instant e w,
                  trace := trace w @ (clock w, Hal_Delay 1) # start_trace e (clock w + ms_cycles e)\<rparr>"
  from ideal_cycle_reads [OF assms] obtain c1 c2 c3 c4 c5 c6 where
    st: "DHT11_Start e (HAL_Delay e 1 w) = Some w1"
    and cr: "DHT11_CheckResponse e w1 = Some (1, w1\<lparr>clock := c1\<rparr>)"
    and r0: "DHT11_ReadByte e (w1\<lparr>clock := c1\<rparr>) = Some (b0, w1\<lparr>clock := c2\<rparr>)"
    and r1: "DHT11_ReadByte e (w1\<lparr>clock := c2\<rparr>) = Some (b1, w1\<lparr>clock := c3\<rparr>)"
    and r2: "DHT11_ReadByte e (w1\<lparr>clock := c3\<rparr>) = Some (b2, w1\<lparr>clock := c4\<rparr>)"
    and r3: "DHT11_ReadByte e (w1\<lparr>clock := c4\<rparr>) = Some (b3, w1\<lparr>clock := c5\<rparr>)"
    and r4: "DHT11_ReadByte e (w1\<lparr>clock := c5\<rparr>) = Some (b4, w1\<lparr>clock := c6\<rparr>)"
    unfolding w1_def by blast
  have "ReadAndDisplayDHT11 e w
      = Some (HAL_Delay e 2000 (validate_and_report e b0 b1 b2 b3 b4 (w1\<lparr>clock := c6\<rparr>)))"
    unfolding ReadAndDisplayDHT11_def Let_def
    by (simp only: st cr r0 r1 r2 r3 r4 Option.bind.bind_lunit prod.case) simp
  then show ?thesis
    unfolding w1_def by (intro exI [where x = c6]) simp
qed

lemma ideal_cycle_calls:
  assumes a: "0 < access e" "access e < 2 ^ 31"
    and fast: "access e \<le> 5 * us_cycles e"
    and wave: "line e = dht11_answer (us_cycles e) t0 [b0, b1, b2, b3, b4]"
    and t0: "release_instant e w \<le> t0" "t0 \<le> release_instant e w + 40 * us_cycles e"
  shows "map_option (\<lambda>w'. (led w', new_calls w w')) (ReadAndDisplayDHT11 e w)
     = Some (if uint b4 = uint b0 + uint b1 + uint b2 + uint b3
             then (\<not> led w, Hal_Delay 1 # start_calls
                      @ [Led_Toggle, Printf (reading_line b0 b1 b2 b3), Hal_Delay 2000])
             else (led w, Hal_Delay 1 # start_calls @ [Printf checksum_error_line, Hal_Delay 2000]))"
proof -
  from ideal_cycle [OF assms] obtain c where
    "ReadAndDisplayDHT11 e w
     = Some (HAL_Delay e 2000 (validate_and_report e b0 b1 b2 b3 b4
         (w\<lparr>trace := trace w @ (clock w, Hal_Delay 1) # start_trace e (clock w + ms_cycles e),
            clock := c\<rparr>)))"
    by blast
  then show ?thesis
    by (simp add: new_calls_def validate_and_report_def HAL_Delay_def printf_def emit_def
        HAL_GPIO_TogglePin_def tick_def map_snd_start_trace)
qed

lemma board16_answer_cycle:
  "map_option (\<lambda>w'. (led w', map snd (trace w')))
     (ReadAndDisplayDHT11 (board16 (dht11_answer 16 304720 [b0, b1, b2, b3, b4])) power_on)
     = Some (if uint b4 = uint b0 + uint b1 + uint b2 + uint b3
             then (True, Hal_Delay 1 # start_calls
                      @ [Led_Toggle, Printf (reading_line b0 b1 b2 b3), Hal_Delay 2000])
             else (False, Hal_Delay 1 # start_calls @ [Printf checksum_error_line, Hal_Delay 2000]))"
proof -
  let ?e = "board16 (dht11_answer 16 304720 [b0, b1, b2, b3, b4])"
  have k: "us_cycles ?e = 16"
    by (simp add: us_cycles_def board16_def)
  have r: "release_instant ?e power_on = 304560"
    by (simp add: release_instant_def start_duration_def ms_cycles_def delay_cycles_def
        delayTicks_of_def board16_def power_on_def)
  have "map_option (\<lambda>w'. (led w', new_calls power_on w')) (ReadAndDisplayDHT11 ?e power_on)
     = Some (if uint b4 = uint b0 + uint b1 + uint b2 + uint b3
             then (\<not> led power_on, Hal_Delay 1 # start_calls
                      @ [Led_Toggle, Printf (reading_line b0 b1 b2 b3), Hal_Delay 2000])
             else (led power_on, Hal_Delay 1 # start_calls @ [Printf checksum_error_line, Hal_Delay 2000]))"
  proof (rule ideal_cycle_calls [where ?t0.0 = 304720])
    show "0 < access ?e" "access ?e < 2 ^ 31" "access ?e \<le> 5 * us_cycles ?e"
      by (simp_all add: k) (simp_all add: board16_def)
    show "line ?e = dht11_answer (us_cycles ?e) 304720 [b0, b1, b2, b3, b4]"
      unfolding k by (simp add: board16_def)
    show "release_instant ?e power_on \<le> 304720" "304720 \<le> release_instant ?e power_on + 40 * us_cycles ?e"
      by (simp_all add: r k)
  qed
  moreover have "led power_on = False"
    by (simp add: power_on_def)
  moreover have "new_calls power_on w' = map snd (trace w')" for w'
    by (simp add: new_calls_def power_on_def)
  ultimately show ?thesis
    by (cases "uint b4 = uint b0 + uint b1 + uint b2 + uint b3") simp_all
qed


section \<open>Where a cycle can wait for ever\<close>

lemma wait_while_pin_never:
  assumes "\<forall>i. line e (clock w + access e * i) = level"
  shows "wait_while_pin e level w = None"
proof (rule ccontr)
  assume "wait_while_pin e level w \<noteq> None"
  then obtain y where y: "wait_while_pin e level w = Some y"
    by auto
  have "\<exists>i. line e (clock w + access e * i) \<noteq> level"
  proof (rule wait_while_pin.raw_induct
      [where P = "\<lambda>e level w y. \<exists>i. line e (clock w + access e * i) \<noteq> level", OF _ y])
    fix f e level w y
    assume ih: "\<And>e level w y. f e level w = Some y \<Longrightarrow> \<exists>i. line e (clock w + access e * i) \<noteq> level"
      and step: "(if fst (HAL_GPIO_ReadPin e w) = level then f e level (snd (HAL_GPIO_ReadPin e w))
                  else Some (snd (HAL_GPIO_ReadPin e w))) = Some y"
    show "\<exists>i. line e (clock w + access e * i) \<noteq> level"
    proof (cases "fst (HAL_GPIO_ReadPin e w) = level")
      case True
      then have "f e level (snd (HAL_GPIO_ReadPin e w)) = Some y" using step by simp
      from ih [OF this] obtain i where "line e (clock w + access e + access e * i) \<noteq> level"
        by (auto simp: HAL_GPIO_ReadPin_def tick_def)
      then have "line e (clock w + access e * Suc i) \<noteq> level"
        by (simp add: add.assoc)
      then show ?thesis by blast
    next
      case False
      then have "line e (clock w + access e * 0) \<noteq> level"
        by (simp add: HAL_GPIO_ReadPin_def)
      then show ?thesis by blast
    qed
  qed
  then show False using assms by simp
qed

lemma wait_while_pin_None_iff:
  "(wait_while_pin e level w = None) = (\<forall>i. line e (clock w + access e * i) = level)"
proof
  assume n: "wait_while_pin e level w = None"
  show "\<forall>i. line e (clock w + access e * i) = level"
  proof (rule ccontr)
    assume "\<not> (\<forall>i. line e (clock w + access e * i) = level)"
    then have ex: "\<exists>i. line e (clock w + access e * i) \<noteq> level"
      by simp
    define n where "n = (LEAST i. line e (clock w + access e * i) \<noteq> level)"
    have "line e (clock w + access e * n) \<noteq> level"
      unfolding n_def using ex by (rule LeastI_ex)
    moreover have "\<forall>i<n. line e (clock w + access e * i) = level"
      unfolding n_def using not_less_Least by blast
    ultimately have "wait_while_pin e level w = Some (w\<lparr>clock := clock w + access e * (n + 1)\<rparr>)"
      by (intro wait_while_pin_steps) simp_all
    then show False using n by simp
  qed
next
  assume "\<forall>i. line e (clock w + access e * i) = level"
  then show "wait_while_pin e level w = None"
    by (rule wait_while_pin_never)
qed

lemma decode_bit_None_iff:
  assumes a: "0 < access e" "access e < 2 ^ 31"
  shows "(decode_bit e w = None)
       = (wait_while_pin e False w = None
          \<or> (\<exists>w4 w5. wait_while_pin e False w = Some w4 \<and> delay_us e 40 w4 = Some w5
                 \<and> wait_while_pin e True (snd (HAL_GPIO_ReadPin e w5)) = None))"
proof (cases "wait_while_pin e False w")
  case None
  then show ?thesis by (simp add: decode_bit_def)
next
  case (Some w4)
  have d: "delay_us e 40 w4 = Some (w4\<lparr>clock := clock w4 + delay_cycles e 40\<rparr>)"
    using a by (simp add: delay_us_small)
  show ?thesis
    by (cases "wait_while_pin e True (tick e (w4\<lparr>clock := clock w4 + delay_cycles e 40\<rparr>))")
       (simp_all add: decode_bit_def Some d HAL_GPIO_ReadPin_def)
qed

lemma decode_bits_None_iff:
  "(decode_bits e n w = None)
     = (\<exists>k<n. \<exists>bs w0. decode_bits e k w = Some (bs, w0) \<and> decode_bit e w0 = None)"
proof (induction n arbitrary: w)
  case 0
  then show ?case by simp
next
  case (Suc n)
  show ?case
  proof (cases "decode_bit e w")
    case None
    then have "decode_bits e 0 w = Some ([], w) \<and> decode_bit e w = None"
      by simp
    then have "\<exists>k<Suc n. \<exists>bs w0. decode_bits e k w = Some (bs, w0) \<and> decode_bit e w0 = None"
      by blast
    then show ?thesis
      using None by simp
  next
    case (Some p)
    obtain b w1 where p: "p = (b, w1)" by (cases p)
    have step: "decode_bits e (Suc k) w = map_option (\<lambda>(bs, w'). (b # bs, w')) (decode_bits e k w1)" for k
      using Some p by (cases "decode_bits e k w1") auto
    have "(decode_bits e (Suc n) w = None) = (decode_bits e n w1 = None)"
      by (simp add: step del: decode_bits.simps)
    also have "\<dots> = (\<exists>k<n. \<exists>bs w0. decode_bits e k w1 = Some (bs, w0) \<and> decode_bit e w0 = None)"
      by (rule Suc.IH)
    also have "\<dots> = (\<exists>k<Suc n. \<exists>bs w0. decode_bits e k w = Some (bs, w0) \<and> decode_bit e w0 = None)"
    proof
      assume "\<exists>k<n. \<exists>bs w0. decode_bits e k w1 = Some (bs, w0) \<and> decode_bit e w0 = None"
      then obtain k bs w0 where "k < n" "decode_bits e k w1 = Some (bs, w0)" "decode_bit e w0 = None"
        by blast
      then have "Suc k < Suc n \<and> decode_bits e (Suc k) w = Some (b # bs, w0) \<and> decode_bit e w0 = None"
        by (simp add: step del: decode_bits.simps)
      then show "\<exists>k<Suc n. \<exists>bs w0. decode_bits e k w = Some (bs, w0) \<and> decode_bit e w0 = None"
        by blast
    next
      assume "\<exists>k<Suc n. \<exists>bs w0. decode_bits e k w = Some (bs, w0) \<and> decode_bit e w0 = None"
      then obtain k bs w0 where k: "k < Suc n" and d: "decode_bits e k w = Some (bs, w0)"
        and h: "decode_bit e w0 = None"
        by blast
      show "\<exists>k<n. \<exists>bs w0. decode_bits e k w1 = Some (bs, w0) \<and> decode_bit e w0 = None"
      proof (cases k)
        case 0
        then show ?thesis using d h Some by simp
      next
        case (Suc j)
        then obtain bs' where "decode_bits e j w1 = Some (bs', w0)"
          using d by (cases "decode_bits e j w1") (auto simp: step simp del: decode_bits.simps)
        then show ?thesis using k Suc h by auto
      qed
    qed
    finally show ?thesis .
  qed
qed

lemma decode_bits_add:
  "decode_bits e (m + n) w
     = do { (bs1, w1) \<leftarrow> decode_bits e m w;
            (bs2, w2) \<leftarrow> decode_bits e n w1;
            Some (bs1 @ bs2, w2) }"
proof (induction m arbitrary: w)
  case 0
  show ?case by (cases "decode_bits e n w") auto
next
  case (Suc m)
  show ?case
  proof (cases "decode_bit e w")
    case None
    then show ?thesis by simp
  next
    case (Some p)
    obtain b w1 where p: "p = (b, w1)" by (cases p)
    show ?thesis
    proof (cases "decode_bits e m w1")
      case None
      then show ?thesis using Some p Suc.IH [of w1] by simp
    next
      case (Some q)
      obtain bs w2 where q: "q = (bs, w2)" by (cases q)
      show ?thesis
        using \<open>decode_bit e w = Some p\<close> p Some q Suc.IH [of w1]
        by (cases "decode_bits e n w2") auto
    qed
  qed
qed

lemma decode_bits_add_None:
  "(decode_bits e (m + n) w = None)
     = (decode_bits e m w = None
        \<or> (\<exists>bs w1. decode_bits e m w = Some (bs, w1) \<and> decode_bits e n w1 = None))"
proof (cases "decode_bits e m w")
  case None
  then show ?thesis by (simp add: decode_bits_add)
next
  case (Some p)
  obtain bs w1 where p: "p = (bs, w1)" by (cases p)
  show ?thesis
    using Some p by (cases "decode_bits e n w1") (auto simp: decode_bits_add)
qed

lemma bind_ReadByte_None:
  "(do { (b, w') \<leftarrow> DHT11_ReadByte e w; K b w' } = None)
     = (decode_bits e 8 w = None
        \<or> (\<exists>bs w'. decode_bits e 8 w = Some (bs, w') \<and> K (msb_first bs) w' = None))"
  by (cases "decode_bits e 8 w") (auto simp: ReadByte_refines decode_byte_def)

lemma five_bytes_None:
  "(do { (b0, w3) \<leftarrow> DHT11_ReadByte e w2;
         (b1, w4) \<leftarrow> DHT11_ReadByte e w3;
         (b2, w5) \<leftarrow> DHT11_ReadByte e w4;
         (b3, w6) \<leftarrow> DHT11_ReadByte e w5;
         (b4, w7) \<leftarrow> DHT11_ReadByte e w6;
         Some (F b0 b1 b2 b3 b4 w7) } = None)
     = (decode_bits e 40 w2 = None)"
proof -
  have n: "decode_bits e 40 w = decode_bits e (8 + 32) w"
    "decode_bits e 32 w = decode_bits e (8 + 24) w"
    "decode_bits e 24 w = decode_bits e (8 + 16) w"
    "decode_bits e 16 w = decode_bits e (8 + 8) w" for w
    by simp_all
  show ?thesis
    by (simp only: bind_ReadByte_None n decode_bits_add_None) simp
qed

lemma Start_after_delay:
  assumes "0 < access e" "access e < 2 ^ 31"
  shows "DHT11_Start e (HAL_Delay e 1 w)
       = Some (w\<lparr>clock := release_instant e w,
                 trace := trace w @ (clock w, Hal_Delay 1) # start_trace e (clock w + ms_cycles e)\<rparr>)"
  using assms
  by (simp add: Start_returns HAL_Delay_def emit_def release_instant_def ms_cycles_def)

lemma board16_acknowledged:
  assumes idle: "\<forall>t<304720. l t"
    and low: "\<forall>t. 304720 \<le> t \<and> t < 306000 \<longrightarrow> \<not> l t"
    and high: "l 306080"
  shows "\<exists>w1 m. m \<le> 100 \<and> (m = 100 \<or> \<not> l (306096 + 48 * m))
           \<and> DHT11_Start (board16 l) (HAL_Delay (board16 l) 1 power_on) = Some w1
           \<and> DHT11_CheckResponse (board16 l) w1 = Some (1, w1\<lparr>clock := 306112 + 48 * m\<rparr>)"
proof -
  let ?e = "board16 l"
  have a: "0 < access ?e" "access ?e < 2 ^ 31"
    by (simp_all add: board16_def)
  have acc: "access ?e = 16" and ln: "line ?e = l"
    by (simp_all add: board16_def)
  have d80: "delay_cycles ?e 80 = 1296" and pp: "poll_period ?e = 48"
    by (simp_all add: poll_period_def delay_cycles_def delayTicks_of_def board16_def)
  have ri: "release_instant ?e power_on = 304560"
    by (simp add: release_instant_def start_duration_def ms_cycles_def delay_cycles_def
        delayTicks_of_def board16_def power_on_def)
  define w1 where "w1 = power_on\<lparr>clock := release_instant ?e power_on,
      trace := trace power_on @ (clock power_on, Hal_Delay 1)
                 # start_trace ?e (clock power_on + ms_cycles ?e)\<rparr>"
  have st: "DHT11_Start ?e (HAL_Delay ?e 1 power_on) = Some w1"
    unfolding w1_def using a by (rule Start_after_delay)
  have c1: "clock w1 = 304560"
    by (simp add: w1_def ri)
  from CheckResponse_returns [OF a, of w1] obtain n m where
    m: "m \<le> 100"
    and hi: "\<forall>i<n. l (304560 + 48 * i)"
    and stop: "n = 100 \<or> \<not> l (304560 + 48 * n)"
    and stop2: "m = 100 \<or> \<not> l (ack_polls_end ?e w1 n + 48 * m)"
    and cr: "DHT11_CheckResponse ?e w1
               = Some (if \<not> l (ack_low_read ?e w1 n) \<and> l (ack_high_read ?e w1 n) then 1 else 0,
                       w1\<lparr>clock := ack_polls_end ?e w1 n + 48 * m + 16\<rparr>)"
    unfolding pp c1 acc ln by blast
  have "\<not> l (304560 + 48 * 4)"
    using low by simp
  then have n4: "n \<le> 4"
    using hi by (metis not_le_imp_less)
  then have "\<not> l (304560 + 48 * n)"
    using stop by simp
  then have "\<not> 304560 + 48 * n < 304720"
    using idle by blast
  then have n: "n = 4"
    using n4 by simp
  have alr: "ack_low_read ?e w1 n = 304768" and ahr: "ack_high_read ?e w1 n = 306080"
    by (simp_all add: ack_high_read_def ack_low_read_def pp c1 acc d80 n)
  have "\<not> l 304768"
    using low by simp
  then have ape: "ack_polls_end ?e w1 n = 306096"
    by (simp add: ack_polls_end_def alr ahr acc ln)
  have "DHT11_CheckResponse ?e w1 = Some (1, w1\<lparr>clock := 306112 + 48 * m\<rparr>)"
    using cr \<open>\<not> l 304768\<close> high by (simp add: alr ahr ape)
  moreover have "m = 100 \<or> \<not> l (306096 + 48 * m)"
    using stop2 by (simp add: ape)
  ultimately show ?thesis
    using m st by blast
qed

section \<open>Decimal numerals and the printed line\<close>













section \<open>C1: frame validation\<close>

text \<open>
  C1. Frame validation should succeed exactly when the fifth byte equals the sum of the
  first four reduced modulo 256. The frame (200, 100, 0, 0, 44) has that property
  (300 mod 256 = 44), yet the comparison is made on the promoted \<open>int\<close> values, 44 against
  300: the report step prints the checksum error and toggles nothing, and so does the
  whole cycle when a sensor puts this frame on the line of the 16 MHz board.
\<close>

theorem checksum_sum_not_truncated:
  "(200 + 100 + 0 + 0) mod 256 = (44 :: nat)
   \<and> validate_and_report (board16 (\<lambda>t. True)) 200 100 0 0 44 power_on
       = \<lparr>clock = 0, led = False, trace = [(0, Printf checksum_error_line)]\<rparr>
   \<and> map_option (\<lambda>w'. (led w', map snd (trace w')))
         (ReadAndDisplayDHT11 (board16 (dht11_answer 16 304720 [200, 100, 0, 0, 44])) power_on)
       = Some (False, [Hal_Delay 1, Gpio_Init GPIO_MODE_OUTPUT_OD, Gpio_Write False, Hal_Delay 18,
                       Gpio_Write True, Gpio_Init GPIO_MODE_INPUT,
                       Printf checksum_error_line, Hal_Delay 2000])"
proof -
  have "validate_and_report (board16 (\<lambda>t. True)) 200 100 0 0 44 power_on
       = \<lparr>clock = 0, led = False, trace = [(0, Printf checksum_error_line)]\<rparr>"
    by (simp add: validate_and_report_def printf_def emit_def power_on_def)
  moreover have "uint (44 :: 8 word) \<noteq> uint (200 :: 8 word) + uint (100 :: 8 word)
      + uint (0 :: 8 word) + uint (0 :: 8 word)"
    by simp
  ultimately show ?thesis
    using board16_answer_cycle [of 200 100 0 0 44] by (simp add: start_calls_def)
qed

section \<open>C2: bit decoding\<close>

text \<open>
  C2. \<open>DHT11_ReadByte\<close> is the decoder of the specification: eight rounds of waiting for
  a high line, \<open>delay_us(40)\<close>, one sample, and waiting for a low line, the samples
  assembled most significant bit first. In a round where the line is first read high at
  the \<open>n\<close>-th poll and, after the sample, first read low at the \<open>m\<close>-th poll, the bit is
  the level of the line at the sample instant; the sample instant lies at least 40
  microseconds, and less than 40 microseconds and four hardware accesses, after the read
  that saw the line high. So on the waveform of a sensor (27 microseconds high for 0, 70
  for 1), read by hardware whose accesses take at most 5 microseconds, \<open>DHT11_ReadByte\<close>
  returns the byte that was sent.
\<close>

theorem DHT11_ReadByte_bit_decoding:
  assumes "0 < access e" and "access e < 2 ^ 31"
  shows "DHT11_ReadByte e w = decode_byte e w
       \<and> (\<forall>n m. (\<forall>i<n. \<not> line e (clock w + access e * i))
              \<and> line e (clock w + access e * n)
              \<and> (\<forall>i<m. line e (sample_instant e (clock w + access e * n) + access e + access e * i))
              \<and> \<not> line e (sample_instant e (clock w + access e * n) + access e + access e * m)
            \<longrightarrow> decode_bit e w
                 = Some (line e (sample_instant e (clock w + access e * n)),
                         w\<lparr>clock := sample_instant e (clock w + access e * n) + access e * (m + 2)\<rparr>))
       \<and> (\<forall>t. t + 40 * us_cycles e \<le> sample_instant e t
              \<and> sample_instant e t < t + 40 * us_cycles e + 4 * access e)
       \<and> (\<forall>T b rest. access e \<le> 5 * us_cycles e
              \<and> (\<forall>t\<ge>T. line e t = dht11_bits (us_cycles e) (byte_bits b @ rest) (t - T))
              \<and> T \<le> clock w \<and> clock w \<le> T + 50 * us_cycles e
            \<longrightarrow> (\<exists>c'. DHT11_ReadByte e w = Some (b, w\<lparr>clock := c'\<rparr>)))"
proof (intro conjI allI impI)
  show "DHT11_ReadByte e w = decode_byte e w"
    by (rule ReadByte_refines)
next
  fix n m
  assume "(\<forall>i<n. \<not> line e (clock w + access e * i))
              \<and> line e (clock w + access e * n)
              \<and> (\<forall>i<m. line e (sample_instant e (clock w + access e * n) + access e + access e * i))
              \<and> \<not> line e (sample_instant e (clock w + access e * n) + access e + access e * m)"
  then show "decode_bit e w
                 = Some (line e (sample_instant e (clock w + access e * n)),
                         w\<lparr>clock := sample_instant e (clock w + access e * n) + access e * (m + 2)\<rparr>)"
    using decode_bit_timed [OF assms, of n w m] by blast
next
  fix t
  have "40 * us_cycles e + access e \<le> delay_cycles e 40"
    and "delay_cycles e 40 < 40 * us_cycles e + 3 * access e"
    using delay_cycles_small [OF assms(1), of 40] by simp_all
  then show "t + 40 * us_cycles e \<le> sample_instant e t"
    and "sample_instant e t < t + 40 * us_cycles e + 4 * access e"
    by (simp_all add: sample_instant_def)
next
  fix T b rest
  assume h: "access e \<le> 5 * us_cycles e
              \<and> (\<forall>t\<ge>T. line e t = dht11_bits (us_cycles e) (byte_bits b @ rest) (t - T))
              \<and> T \<le> clock w \<and> clock w \<le> T + 50 * us_cycles e"
  then have f: "access e \<le> 5 * us_cycles e"
    and wv: "\<forall>t\<ge>T. line e t = dht11_bits (us_cycles e) (byte_bits b @ rest) (t - T)"
    and c: "T \<le> clock w" "clock w \<le> T + 50 * us_cycles e"
    by simp_all
  have "\<exists>c' T'. DHT11_ReadByte e w = Some (b, w\<lparr>clock := c'\<rparr>)
            \<and> T' \<le> c' \<and> c' \<le> T' + 50 * us_cycles e
            \<and> (\<forall>t\<ge>T'. line e t = dht11_bits (us_cycles e) rest (t - T'))"
    by (rule ReadByte_ideal [OF assms f wv c])
  then show "\<exists>c'. DHT11_ReadByte e w = Some (b, w\<lparr>clock := c'\<rparr>)"
    by blast
qed

theorem DHT11_ReadByte_bit_decoding_witness:
  "0 < access (board16 (\<lambda>t. True)) \<and> access (board16 (\<lambda>t. True)) < 2 ^ 31
   \<and> decode_bit (board16 (\<lambda>t. 400 \<le> t \<and> t < 1600)) power_on = Some (True, power_on\<lparr>clock := 1616\<rparr>)
   \<and> decode_bit (board16 (\<lambda>t. 400 \<le> t \<and> t < 832)) power_on = Some (False, power_on\<lparr>clock := 1104\<rparr>)
   \<and> 400 + 640 \<le> sample_instant (board16 (\<lambda>t. True)) 400
   \<and> sample_instant (board16 (\<lambda>t. True)) 400 < 400 + 640 + 64
   \<and> (\<exists>c'. DHT11_ReadByte (board16 (dht11_bits 16 (byte_bits 165))) power_on
             = Some (165, power_on\<lparr>clock := c'\<rparr>))"
proof -
  have a: "0 < access (board16 l)" "access (board16 l) < 2 ^ 31" for l
    by (simp_all add: board16_def)
  have k: "us_cycles (board16 l) = 16" for l
    by (simp add: us_cycles_def board16_def)
  have si: "sample_instant (board16 l) 400 = 1072" for l
    by (simp add: sample_instant_def delay_cycles_def delayTicks_of_def board16_def)
  note long = DHT11_ReadByte_bit_decoding [OF a, of "\<lambda>t. 400 \<le> t \<and> t < 1600" power_on]
  note short = DHT11_ReadByte_bit_decoding [OF a, of "\<lambda>t. 400 \<le> t \<and> t < 832" power_on]
  note byte = DHT11_ReadByte_bit_decoding [OF a, of "dht11_bits 16 (byte_bits 165)" power_on]
  have one: "decode_bit (board16 (\<lambda>t. 400 \<le> t \<and> t < 1600)) power_on
      = Some (True, power_on\<lparr>clock := 1616\<rparr>)"
    using long [THEN conjunct2, THEN conjunct1, THEN spec, THEN spec, of 25 32]
    by (simp add: sample_instant_def delay_cycles_def delayTicks_of_def board16_def power_on_def)
  have zero: "decode_bit (board16 (\<lambda>t. 400 \<le> t \<and> t < 832)) power_on
      = Some (False, power_on\<lparr>clock := 1104\<rparr>)"
    using short [THEN conjunct2, THEN conjunct1, THEN spec, THEN spec, of 25 0]
    by (simp add: sample_instant_def delay_cycles_def delayTicks_of_def board16_def power_on_def)
  have win: "400 + 640 \<le> sample_instant (board16 (\<lambda>t. True)) 400
      \<and> sample_instant (board16 (\<lambda>t. True)) 400 < 400 + 640 + 64"
    by (simp add: si)
  have "\<exists>c'. DHT11_ReadByte (board16 (dht11_bits 16 (byte_bits 165))) power_on
             = Some (165, power_on\<lparr>clock := c'\<rparr>)"
    using byte [THEN conjunct2, THEN conjunct2, THEN conjunct2, THEN spec, THEN spec, THEN spec,
        of 0 165 "[]"]
    by (simp add: k) (simp add: board16_def power_on_def)
  then show ?thesis
    using a [of "\<lambda>t. True"] one zero win by simp
qed

section \<open>C3: cool-down\<close>

text \<open>
  C3. The cool-down should follow every attempt. With no sensor on the line (the pull-up
  keeps it high) the 16 MHz board returns from \<open>ReadAndDisplayDHT11\<close> 314208 cycles
  (19.6 milliseconds) after the call: the log ends with the release of the pin, and
  \<open>HAL_Delay(2000)\<close> is never called, because the call sits inside the branch taken only
  when the sensor has answered.
\<close>

theorem no_cooldown_without_response:
  "ReadAndDisplayDHT11 (board16 (\<lambda>t. True)) power_on
     = Some \<lparr>clock = 314208, led = False,
             trace = [(0, Hal_Delay 1), (16000, Gpio_Init GPIO_MODE_OUTPUT_OD),
                      (16016, Gpio_Write False), (16032, Hal_Delay 18),
                      (304032, Gpio_Write True), (304544, Gpio_Init GPIO_MODE_INPUT)]\<rparr>
   \<and> (314208 :: nat) < 2 * 16000000"
proof -
  let ?e = "board16 (\<lambda>t. True)"
  have a: "0 < access ?e" "access ?e < 2 ^ 31"
    by (simp_all add: board16_def)
  have "\<forall>t. release_instant ?e power_on \<le> t
            \<and> t \<le> release_instant ?e power_on + 100 * poll_period ?e + access ?e \<longrightarrow> line ?e t"
    by (simp add: board16_def)
  from no_response_cycle [OF a this] obtain m where
    "m = 100 \<or> \<not> line ?e (release_instant ?e power_on + 100 * poll_period ?e + 2 * access ?e
                          + poll_period ?e * m)"
    and rd: "ReadAndDisplayDHT11 ?e power_on
       = Some (power_on\<lparr>clock := release_instant ?e power_on + 100 * poll_period ?e + 3 * access ?e
                          + poll_period ?e * m,
                  trace := trace power_on @ (clock power_on, Hal_Delay 1)
                           # start_trace ?e (clock power_on + ms_cycles ?e)\<rparr>)"
    by blast
  then have "m = 100"
    by (simp add: board16_def)
  then show ?thesis
    using rd
    by (simp add: board16_def power_on_def release_instant_def start_duration_def ms_cycles_def
        poll_period_def delay_cycles_def delayTicks_of_def start_trace_def)
qed

section \<open>C4: acknowledgment\<close>

text \<open>
  C4. \<open>DHT11_CheckResponse\<close> polls the pin at most 101 times, a round of the poll lasting
  at least one microsecond, and stops at the first low reading or when the budget of 100
  is spent. It then reads the pin again: the result is 1 exactly when that reading is low
  and the reading taken at least 80 microseconds later is high. A line that is not low
  and a line that is not high after the wait both give the same result 0. The function
  always returns, and changes neither the log nor the indicator.
\<close>

theorem DHT11_CheckResponse_result:
  assumes "0 < access e" and "access e < 2 ^ 31"
  shows "\<exists>n w'. n \<le> 100
           \<and> (\<forall>i<n. line e (clock w + poll_period e * i))
           \<and> (n = 100 \<or> \<not> line e (clock w + poll_period e * n))
           \<and> us_cycles e \<le> poll_period e
           \<and> ack_low_read e w n + 80 * us_cycles e \<le> ack_high_read e w n
           \<and> DHT11_CheckResponse e w
               = Some (if \<not> line e (ack_low_read e w n) \<and> line e (ack_high_read e w n) then 1 else 0, w')
           \<and> trace w' = trace w \<and> led w' = led w
           \<and> clock w' \<le> clock w + 200 * poll_period e + 4 * access e + delay_cycles e 80"
proof -
  from CheckResponse_returns [OF assms, of w] obtain n m where
    n: "n \<le> 100" and m: "m \<le> 100"
    and hi: "\<forall>i<n. line e (clock w + poll_period e * i)"
    and stop: "n = 100 \<or> \<not> line e (clock w + poll_period e * n)"
    and cr: "DHT11_CheckResponse e w
               = Some (if \<not> line e (ack_low_read e w n) \<and> line e (ack_high_read e w n) then 1 else 0,
                       w\<lparr>clock := ack_polls_end e w n + poll_period e * m + access e\<rparr>)"
    by blast
  have step: "us_cycles e \<le> poll_period e"
    using delay_cycles_small(1) [OF assms(1), of 1] by (simp add: poll_period_def)
  have wait80: "ack_low_read e w n + 80 * us_cycles e \<le> ack_high_read e w n"
    using delay_cycles_small(1) [OF assms(1), of 80] by (simp add: ack_high_read_def)
  have "poll_period e * n \<le> 100 * poll_period e" and "poll_period e * m \<le> 100 * poll_period e"
    using n m by simp_all
  moreover have "ack_polls_end e w n \<le> clock w + poll_period e * n + 3 * access e + delay_cycles e 80"
    by (simp add: ack_polls_end_def ack_high_read_def ack_low_read_def)
  ultimately have "ack_polls_end e w n + poll_period e * m + access e
      \<le> clock w + 200 * poll_period e + 4 * access e + delay_cycles e 80"
    by linarith
  then show ?thesis
    using n hi stop cr step wait80
    by (intro exI [where x = n] exI [where x = "w\<lparr>clock := ack_polls_end e w n + poll_period e * m + access e\<rparr>"]) simp
qed

theorem DHT11_CheckResponse_result_witness:
  "0 < access (board16 (\<lambda>t. 1000 \<le> t)) \<and> access (board16 (\<lambda>t. 1000 \<le> t)) < 2 ^ 31
   \<and> (\<exists>w'. DHT11_CheckResponse (board16 (\<lambda>t. 1000 \<le> t)) power_on = Some (1, w')
          \<and> trace w' = [] \<and> clock w' \<le> 10960)
   \<and> (\<exists>w'. DHT11_CheckResponse (board16 (\<lambda>t. True)) power_on = Some (0, w'))
   \<and> (\<exists>w'. DHT11_CheckResponse (board16 (\<lambda>t. False)) power_on = Some (0, w'))"
proof -
  let ?e = "board16 (\<lambda>t. 1000 \<le> t)"
  have a: "0 < access (board16 l)" "access (board16 l) < 2 ^ 31" for l
    by (simp_all add: board16_def)
  from DHT11_CheckResponse_result [OF a, of "\<lambda>t. 1000 \<le> t" power_on] obtain n w' where
    hi: "\<forall>i<n. line ?e (clock power_on + poll_period ?e * i)"
    and cr: "DHT11_CheckResponse ?e power_on
               = Some (if \<not> line ?e (ack_low_read ?e power_on n) \<and> line ?e (ack_high_read ?e power_on n)
                       then 1 else 0, w')"
    and fr: "trace w' = trace power_on"
    and cl: "clock w' \<le> clock power_on + 200 * poll_period ?e + 4 * access ?e + delay_cycles ?e 80"
    by blast
  have "n = 0"
  proof (rule ccontr)
    assume "n \<noteq> 0"
    then have "line ?e (clock power_on + poll_period ?e * 0)"
      using hi by blast
    then show False
      by (simp add: board16_def power_on_def)
  qed
  then have "DHT11_CheckResponse ?e power_on = Some (1, w')"
    using cr
    by (simp add: ack_low_read_def ack_high_read_def poll_period_def delay_cycles_def
        delayTicks_of_def board16_def power_on_def)
  moreover have "clock w' \<le> 10960"
    using cl by (simp add: poll_period_def delay_cycles_def delayTicks_of_def board16_def power_on_def)
  ultimately have answered: "\<exists>w'. DHT11_CheckResponse ?e power_on = Some (1, w')
          \<and> trace w' = [] \<and> clock w' \<le> 10960"
    using fr by (simp add: power_on_def)
  from DHT11_CheckResponse_result [OF a, of "\<lambda>t. True" power_on]
  have never_low: "\<exists>w'. DHT11_CheckResponse (board16 (\<lambda>t. True)) power_on = Some (0, w')"
    by (auto simp: board16_def)
  from DHT11_CheckResponse_result [OF a, of "\<lambda>t. False" power_on]
  have never_high: "\<exists>w'. DHT11_CheckResponse (board16 (\<lambda>t. False)) power_on = Some (0, w')"
    by (auto simp: board16_def)
  show ?thesis
    using a [of "\<lambda>t. 1000 \<le> t"] answered never_low never_high by simp
qed

section \<open>C5: a sensor that does not answer\<close>

text \<open>
  C5. If the line stays high from the release of the start signal until the
  acknowledgment budget is spent (100 rounds of the poll and the reading that follows),
  the cycle returns: the acknowledgment check gives 0, the cycle ends in the world the
  check returned (no byte is read), within 200 rounds of the poll after the release, and
  it has printed nothing and left the indicator alone: the log holds the start signal
  only.
\<close>

theorem silent_sensor_cycle_ends:
  assumes "0 < access e" and "access e < 2 ^ 31"
    and "\<forall>t. release_instant e w \<le> t \<and> t \<le> release_instant e w + 100 * poll_period e + access e
             \<longrightarrow> line e t"
  shows "\<exists>w1 w'. DHT11_Start e (HAL_Delay e 1 w) = Some w1
           \<and> DHT11_CheckResponse e w1 = Some (0, w')
           \<and> ReadAndDisplayDHT11 e w = Some w'
           \<and> map snd (trace w') = map snd (trace w) @ Hal_Delay 1 # start_calls
           \<and> led w' = led w
           \<and> clock w' \<le> release_instant e w + 200 * poll_period e + 3 * access e"
proof -
  define w1 where "w1 = w\<lparr>clock := release_instant e w,
                  trace := trace w @ (clock w, Hal_Delay 1) # start_trace e (clock w + ms_cycles e)\<rparr>"
  from no_response_cycle [OF assms] obtain m where m: "m \<le> 100"
    and cr: "DHT11_CheckResponse e w1
             = Some (0, w\<lparr>clock := release_instant e w + 100 * poll_period e + 3 * access e + poll_period e * m,
                  trace := trace w @ (clock w, Hal_Delay 1) # start_trace e (clock w + ms_cycles e)\<rparr>)"
    and rd: "ReadAndDisplayDHT11 e w
             = Some (w\<lparr>clock := release_instant e w + 100 * poll_period e + 3 * access e + poll_period e * m,
                  trace := trace w @ (clock w, Hal_Delay 1) # start_trace e (clock w + ms_cycles e)\<rparr>)"
    unfolding w1_def by blast
  have st: "DHT11_Start e (HAL_Delay e 1 w) = Some w1"
    using assms(1,2)
    by (simp add: Start_returns HAL_Delay_def emit_def w1_def release_instant_def ms_cycles_def)
  have "poll_period e * m \<le> 100 * poll_period e"
    using m by simp
  then have "release_instant e w + 100 * poll_period e + 3 * access e + poll_period e * m
      \<le> release_instant e w + 200 * poll_period e + 3 * access e"
    by linarith
  then show ?thesis
    using st cr rd
    by (intro exI [where x = w1] exI [where x = "w\<lparr>clock := release_instant e w + 100 * poll_period e + 3 * access e + poll_period e * m,
                  trace := trace w @ (clock w, Hal_Delay 1) # start_trace e (clock w + ms_cycles e)\<rparr>"])
       (simp add: map_snd_start_trace)
qed

theorem silent_sensor_cycle_ends_witness:
  "0 < access (board16 (\<lambda>t. True)) \<and> access (board16 (\<lambda>t. True)) < 2 ^ 31
   \<and> (\<exists>w'. ReadAndDisplayDHT11 (board16 (\<lambda>t. True)) power_on = Some w'
         \<and> map snd (trace w') = Hal_Delay 1 # start_calls \<and> led w' = False
         \<and> clock w' \<le> 314208)"
  using silent_sensor_cycle_ends [of "board16 (\<lambda>t. True)" power_on]
  by (auto simp: board16_def power_on_def release_instant_def start_duration_def ms_cycles_def
      poll_period_def delay_cycles_def delayTicks_of_def)

section \<open>C6: start signal\<close>

text \<open>
  C6, as stated, puts the release pulse inside the window of 20 to 40 microseconds on
  every platform. The pulse is \<open>delay_us(30)\<close> and the calls around it: on the 16 MHz board
  with hardware accesses of 100 cycles the line is driven high at cycle 288200 and the
  pin becomes an input at cycle 288900, which is 700 cycles or 43.75 microseconds later.
\<close>

theorem release_pulse_exceeds_40_us:
  "DHT11_Start (board16_slow (\<lambda>t. True)) power_on
     = Some \<lparr>clock = 289000, led = False,
             trace = [(0, Gpio_Init GPIO_MODE_OUTPUT_OD), (100, Gpio_Write False),
                      (200, Hal_Delay 18), (288200, Gpio_Write True),
                      (288900, Gpio_Init GPIO_MODE_INPUT)]\<rparr>
   \<and> 288200 + 40 * us_cycles (board16_slow (\<lambda>t. True)) < 288900"
proof -
  let ?e = "board16_slow (\<lambda>t. True)"
  have a: "0 < access ?e" "access ?e < 2 ^ 31"
    by (simp_all add: board16_slow_def)
  show ?thesis
    using Start_returns [OF a, of power_on]
    by (simp add: start_trace_def start_duration_def ms_cycles_def
        us_cycles_def delay_cycles_def delayTicks_of_def board16_slow_def power_on_def)
qed

text \<open>
  C6, amended. \<open>DHT11_Start\<close> makes five calls, in this order: the pin becomes an open-drain
  output, the line is driven low, \<open>HAL_Delay(18)\<close> holds it, the line is driven high, and
  after \<open>delay_us(30)\<close> the pin becomes an input. The line is driven high 18 milliseconds
  after the call that drove it low has returned. The delay asked for is the fixed value
  of 30 microseconds, and the release pulse lasts that long and at least two, less than
  four hardware accesses: it is never shorter than 20 microseconds, and it is no longer
  than 40 microseconds when four hardware accesses fit in 10 microseconds.
\<close>

theorem DHT11_Start_sequence:
  assumes "0 < access e" and "access e < 2 ^ 31"
  shows "\<exists>t_out t_low t_hold t_high t_in w'.
           DHT11_Start e w = Some w'
         \<and> trace w' = trace w @ [(t_out, Gpio_Init GPIO_MODE_OUTPUT_OD), (t_low, Gpio_Write False),
                                  (t_hold, Hal_Delay 18), (t_high, Gpio_Write True),
                                  (t_in, Gpio_Init GPIO_MODE_INPUT)]
         \<and> clock w \<le> t_out \<and> t_out \<le> t_low \<and> t_low \<le> t_hold
         \<and> t_hold + 18 * ms_cycles e = t_high
         \<and> t_low + 18 * ms_cycles e \<le> t_high
         \<and> delayTicks_of e 30 = 30 * us_cycles e
         \<and> t_in = t_high + access e + delay_cycles e 30
         \<and> t_high + 30 * us_cycles e + 2 * access e \<le> t_in
         \<and> t_in < t_high + 30 * us_cycles e + 4 * access e
         \<and> t_high + 20 * us_cycles e \<le> t_in
         \<and> (4 * access e \<le> 10 * us_cycles e \<longrightarrow> t_in \<le> t_high + 40 * us_cycles e)
         \<and> t_in \<le> clock w'"
proof -
  have lo: "30 * us_cycles e + access e \<le> delay_cycles e 30"
    and hi: "delay_cycles e 30 < 30 * us_cycles e + 3 * access e"
    using delay_cycles_small [OF assms(1), of 30] by simp_all
  show ?thesis
    apply (rule exI [where x = "clock w"])
    apply (rule exI [where x = "clock w + access e"])
    apply (rule exI [where x = "clock w + 2 * access e"])
    apply (rule exI [where x = "clock w + 2 * access e + 18 * ms_cycles e"])
    apply (rule exI [where x = "clock w + 3 * access e + 18 * ms_cycles e + delay_cycles e 30"])
    using assms lo hi delayTicks_small [of 30 e]
    apply (simp add: Start_returns start_trace_def start_duration_def us_cycles_def)
    done
qed

theorem DHT11_Start_sequence_witness:
  "0 < access (board16 (\<lambda>t. True)) \<and> access (board16 (\<lambda>t. True)) < 2 ^ 31
   \<and> 4 * access (board16 (\<lambda>t. True)) \<le> 10 * us_cycles (board16 (\<lambda>t. True))
   \<and> (\<exists>t_out t_low t_hold t_high t_in w'.
         DHT11_Start (board16 (\<lambda>t. True)) power_on = Some w'
       \<and> trace w' = [(t_out, Gpio_Init GPIO_MODE_OUTPUT_OD), (t_low, Gpio_Write False),
                      (t_hold, Hal_Delay 18), (t_high, Gpio_Write True),
                      (t_in, Gpio_Init GPIO_MODE_INPUT)]
       \<and> t_low + 288000 \<le> t_high \<and> t_high + 320 \<le> t_in \<and> t_in \<le> t_high + 640)
   \<and> 0 < access (board16_slow (\<lambda>t. True)) \<and> access (board16_slow (\<lambda>t. True)) < 2 ^ 31
   \<and> (\<exists>t_out t_low t_hold t_high t_in w'.
         DHT11_Start (board16_slow (\<lambda>t. True)) power_on = Some w'
       \<and> trace w' = [(t_out, Gpio_Init GPIO_MODE_OUTPUT_OD), (t_low, Gpio_Write False),
                      (t_hold, Hal_Delay 18), (t_high, Gpio_Write True),
                      (t_in, Gpio_Init GPIO_MODE_INPUT)]
       \<and> t_low + 288000 \<le> t_high \<and> t_high + 680 \<le> t_in \<and> t_in < t_high + 880)"
  using DHT11_Start_sequence [of "board16 (\<lambda>t. True)" power_on]
    DHT11_Start_sequence [of "board16_slow (\<lambda>t. True)" power_on]
  by (auto simp: board16_def board16_slow_def power_on_def us_cycles_def ms_cycles_def)

section \<open>C7: which polls have no bound\<close>

text \<open>
  C7, as stated, names the wait for the end of the acknowledgment as unbounded and every
  wait but two as bounded. On a line stuck high \<open>DHT11_CheckResponse\<close> returns after its
  two budgets (9648 cycles), and \<open>DHT11_ReadByte\<close> never returns although its wait for a
  high line returns at once: it hangs in the wait for the line to fall. So does the whole
  cycle when the sensor acknowledges the start signal and then leaves the line high.
\<close>

theorem ack_end_wait_is_bounded_bit_low_wait_is_not:
  "DHT11_CheckResponse (board16 (\<lambda>t. True)) power_on = Some (0, power_on\<lparr>clock := 9648\<rparr>)
   \<and> wait_while_pin (board16 (\<lambda>t. True)) False power_on = Some (power_on\<lparr>clock := 16\<rparr>)
   \<and> wait_while_pin (board16 (\<lambda>t. True)) True power_on = None
   \<and> DHT11_ReadByte (board16 (\<lambda>t. True)) power_on = None
   \<and> ReadAndDisplayDHT11 (board16 (ack_then_high 16 304720)) power_on = None"
proof -
  let ?e = "board16 (\<lambda>t. True)"
  have a: "0 < access (board16 l)" "access (board16 l) < 2 ^ 31" for l
    by (simp_all add: board16_def)
  from CheckResponse_returns [OF a, of "\<lambda>t. True" power_on] obtain n m where
    "n = 100 \<or> \<not> line ?e (clock power_on + poll_period ?e * n)"
    and "m = 100 \<or> \<not> line ?e (ack_polls_end ?e power_on n + poll_period ?e * m)"
    and cr: "DHT11_CheckResponse ?e power_on
               = Some (if \<not> line ?e (ack_low_read ?e power_on n) \<and> line ?e (ack_high_read ?e power_on n)
                       then 1 else 0,
                       power_on\<lparr>clock := ack_polls_end ?e power_on n + poll_period ?e * m + access ?e\<rparr>)"
    by blast
  then have "n = 100" and "m = 100"
    by (simp_all add: board16_def)
  then have c1: "DHT11_CheckResponse ?e power_on = Some (0, power_on\<lparr>clock := 9648\<rparr>)"
    using cr
    by (simp add: ack_polls_end_def ack_low_read_def ack_high_read_def poll_period_def
        delay_cycles_def delayTicks_of_def board16_def power_on_def)
  have "wait_while_pin ?e False power_on
      = Some (power_on\<lparr>clock := clock power_on + access ?e * (0 + 1)\<rparr>)"
    by (rule wait_while_pin_steps) (simp_all add: board16_def)
  then have c2: "wait_while_pin ?e False power_on = Some (power_on\<lparr>clock := 16\<rparr>)"
    by (simp add: board16_def power_on_def)
  have c3: "wait_while_pin ?e True power_on = None"
    by (rule wait_while_pin_stuck) (simp add: board16_def)
  have c4: "DHT11_ReadByte ?e power_on = None"
    by (rule ReadByte_stuck_high [OF a]) (simp add: board16_def)
  let ?h = "board16 (ack_then_high 16 304720)"
  have "\<forall>t<304720. ack_then_high 16 304720 t"
    and "\<forall>t. 304720 \<le> t \<and> t < 306000 \<longrightarrow> \<not> ack_then_high 16 304720 t"
    and "ack_then_high 16 304720 306080"
    by (simp_all add: ack_then_high_def)
  from board16_acknowledged [OF this] obtain w1 m where
    st: "DHT11_Start ?h (HAL_Delay ?h 1 power_on) = Some w1"
    and cr: "DHT11_CheckResponse ?h w1 = Some (1, w1\<lparr>clock := 306112 + 48 * m\<rparr>)"
    by blast
  have "DHT11_ReadByte ?h (w1\<lparr>clock := 306112 + 48 * m\<rparr>) = None"
    by (rule ReadByte_stuck_high [OF a]) (simp add: board16_def ack_then_high_def)
  then have c5: "ReadAndDisplayDHT11 ?h power_on = None"
    unfolding ReadAndDisplayDHT11_def Let_def
    by (simp only: st cr Option.bind.bind_lunit prod.case) simp
  show ?thesis
    using c1 c2 c3 c4 c5 by simp
qed

text \<open>
  C7, amended. The two polls without a bound are the two waits of \<open>DHT11_ReadByte\<close>: for
  the line to become high and for it to fall again. The start signal and
  \<open>DHT11_CheckResponse\<close> always return, the latter within its two budgets of 100 rounds,
  and when it reports no answer the cycle returns with it. A cycle never returns exactly
  when the acknowledgment was seen and, with fewer than 40 bits read, the wait for a high
  line never ends or, after it and \<open>delay_us(40)\<close> have returned, the wait for a low line
  never ends. Either wait never ends exactly when every one of its reads finds the line
  at the level it waits on. So the cycle hangs when the line keeps one level for ever
  after an acknowledgment that was seen, and it does not hang when the line keeps one
  level from the release of the line on: then the acknowledgment check returns 0.
\<close>

theorem only_the_per_bit_waits_are_unbounded:
  assumes "0 < access e" and "access e < 2 ^ 31"
  shows "\<exists>w1 r w2.
           DHT11_Start e (HAL_Delay e 1 w) = Some w1 \<and> clock w1 = release_instant e w
         \<and> DHT11_CheckResponse e w1 = Some (r, w2)
         \<and> clock w2 \<le> clock w1 + 200 * poll_period e + 4 * access e + delay_cycles e 80
         \<and> (r = 0 \<longrightarrow> ReadAndDisplayDHT11 e w = Some w2)
         \<and> (ReadAndDisplayDHT11 e w = None)
             = (r \<noteq> 0 \<and> (\<exists>k<40. \<exists>bs w3. decode_bits e k w2 = Some (bs, w3)
                  \<and> (wait_while_pin e False w3 = None
                     \<or> (\<exists>w4 w5. wait_while_pin e False w3 = Some w4 \<and> delay_us e 40 w4 = Some w5
                           \<and> wait_while_pin e True (snd (HAL_GPIO_ReadPin e w5)) = None))))
         \<and> (\<forall>level. r \<noteq> 0 \<and> (\<forall>t\<ge>clock w2. line e t = level) \<longrightarrow> ReadAndDisplayDHT11 e w = None)
         \<and> (\<forall>level. (\<forall>t\<ge>clock w1. line e t = level) \<longrightarrow> r = 0)
         \<and> (\<forall>level w0. (wait_while_pin e level w0 = None)
                          = (\<forall>i. line e (clock w0 + access e * i) = level))"
proof -
  define w1 where "w1 = w\<lparr>clock := release_instant e w,
      trace := trace w @ (clock w, Hal_Delay 1) # start_trace e (clock w + ms_cycles e)\<rparr>"
  have st: "DHT11_Start e (HAL_Delay e 1 w) = Some w1"
    unfolding w1_def using assms by (rule Start_after_delay)
  have c1: "clock w1 = release_instant e w"
    by (simp add: w1_def)
  from CheckResponse_returns [OF assms, of w1] obtain n m where
    n: "n \<le> 100" and m: "m \<le> 100"
    and cr0: "DHT11_CheckResponse e w1
               = Some (if \<not> line e (ack_low_read e w1 n) \<and> line e (ack_high_read e w1 n) then 1 else 0,
                       w1\<lparr>clock := ack_polls_end e w1 n + poll_period e * m + access e\<rparr>)"
    by blast
  define r :: "8 word" where
    "r = (if \<not> line e (ack_low_read e w1 n) \<and> line e (ack_high_read e w1 n) then 1 else 0)"
  define w2 where "w2 = w1\<lparr>clock := ack_polls_end e w1 n + poll_period e * m + access e\<rparr>"
  have cr: "DHT11_CheckResponse e w1 = Some (r, w2)"
    using cr0 by (simp add: r_def w2_def)
  have "poll_period e * n \<le> 100 * poll_period e" and "poll_period e * m \<le> 100 * poll_period e"
    using n m by simp_all
  moreover have "ack_polls_end e w1 n \<le> clock w1 + poll_period e * n + 3 * access e + delay_cycles e 80"
    by (simp add: ack_polls_end_def ack_high_read_def ack_low_read_def)
  ultimately have "ack_polls_end e w1 n + poll_period e * m + access e
      \<le> clock w1 + 200 * poll_period e + 4 * access e + delay_cycles e 80"
    by linarith
  then have bound: "clock w2 \<le> clock w1 + 200 * poll_period e + 4 * access e + delay_cycles e 80"
    by (simp add: w2_def)
  have failed: "ReadAndDisplayDHT11 e w = Some w2" if "r = 0"
    unfolding ReadAndDisplayDHT11_def Let_def
    by (simp only: st cr Option.bind.bind_lunit prod.case) (simp add: that)
  have bits: "(ReadAndDisplayDHT11 e w = None) = (r \<noteq> 0 \<and> decode_bits e 40 w2 = None)"
  proof (cases "r = 0")
    case True
    then show ?thesis using failed by simp
  next
    case False
    have "(ReadAndDisplayDHT11 e w = None)
        = (do { (b0, w3) \<leftarrow> DHT11_ReadByte e w2;
                (b1, w4) \<leftarrow> DHT11_ReadByte e w3;
                (b2, w5) \<leftarrow> DHT11_ReadByte e w4;
                (b3, w6) \<leftarrow> DHT11_ReadByte e w5;
                (b4, w7) \<leftarrow> DHT11_ReadByte e w6;
                Some (HAL_Delay e 2000 (validate_and_report e b0 b1 b2 b3 b4 w7)) } = None)"
      unfolding ReadAndDisplayDHT11_def Let_def
      by (simp only: st cr Option.bind.bind_lunit prod.case) (simp add: False)
    also have "\<dots> = (decode_bits e 40 w2 = None)"
      by (rule five_bytes_None)
    finally show ?thesis
      using False by simp
  qed
  have hang: "(ReadAndDisplayDHT11 e w = None)
             = (r \<noteq> 0 \<and> (\<exists>k<40. \<exists>bs w3. decode_bits e k w2 = Some (bs, w3)
                  \<and> (wait_while_pin e False w3 = None
                     \<or> (\<exists>w4 w5. wait_while_pin e False w3 = Some w4 \<and> delay_us e 40 w4 = Some w5
                           \<and> wait_while_pin e True (snd (HAL_GPIO_ReadPin e w5)) = None))))"
    unfolding bits decode_bits_None_iff [of e 40 w2] decode_bit_None_iff [OF assms] ..
  have stuck: "ReadAndDisplayDHT11 e w = None" if "r \<noteq> 0" and "\<forall>t\<ge>clock w2. line e t = level" for level
  proof -
    have "DHT11_ReadByte e w2 = None"
    proof (cases level)
      case True
      then show ?thesis using ReadByte_stuck_high [OF assms, of w2] that(2) by simp
    next
      case False
      then show ?thesis using ReadByte_stuck_low [of w2 e] that(2) by simp
    qed
    then show ?thesis
      unfolding ReadAndDisplayDHT11_def Let_def
      by (simp only: st cr Option.bind.bind_lunit prod.case) (simp add: that(1))
  qed
  have silent: "r = 0" if "\<forall>t\<ge>clock w1. line e t = level" for level
  proof -
    have "line e (ack_low_read e w1 n) = level" and "line e (ack_high_read e w1 n) = level"
      using that by (simp_all add: ack_high_read_def ack_low_read_def)
    then show ?thesis
      by (simp add: r_def)
  qed
  have f: "r = 0 \<longrightarrow> ReadAndDisplayDHT11 e w = Some w2"
    using failed by blast
  have s: "\<forall>level. r \<noteq> 0 \<and> (\<forall>t\<ge>clock w2. line e t = level) \<longrightarrow> ReadAndDisplayDHT11 e w = None"
    using stuck by blast
  have q: "\<forall>level. (\<forall>t\<ge>clock w1. line e t = level) \<longrightarrow> r = 0"
    using silent by blast
  have g: "\<forall>level w0. (wait_while_pin e level w0 = None)
                          = (\<forall>i. line e (clock w0 + access e * i) = level)"
    by (simp add: wait_while_pin_None_iff)
  show ?thesis
    apply (rule exI [where x = w1], rule exI [where x = r], rule exI [where x = w2])
    apply (intro conjI)
            apply (rule st c1 cr bound f hang s q g)+
    done
qed

theorem only_the_per_bit_waits_are_unbounded_witness:
  "0 < access (board16 (ack_then_high 16 304720)) \<and> access (board16 (ack_then_high 16 304720)) < 2 ^ 31
   \<and> ReadAndDisplayDHT11 (board16 (ack_then_high 16 304720)) power_on = None
   \<and> (\<exists>w1 w2 w4 w5.
          DHT11_Start (board16 (ack_then_high 16 304720))
            (HAL_Delay (board16 (ack_then_high 16 304720)) 1 power_on) = Some w1
        \<and> DHT11_CheckResponse (board16 (ack_then_high 16 304720)) w1 = Some (1, w2)
        \<and> wait_while_pin (board16 (ack_then_high 16 304720)) False w2 = Some w4
        \<and> delay_us (board16 (ack_then_high 16 304720)) 40 w4 = Some w5
        \<and> wait_while_pin (board16 (ack_then_high 16 304720)) True
              (snd (HAL_GPIO_ReadPin (board16 (ack_then_high 16 304720)) w5)) = None)
   \<and> ReadAndDisplayDHT11 (board16 (ack_then_low 16 304720)) power_on = None
   \<and> (\<exists>w1 w2.
          DHT11_Start (board16 (ack_then_low 16 304720))
            (HAL_Delay (board16 (ack_then_low 16 304720)) 1 power_on) = Some w1
        \<and> DHT11_CheckResponse (board16 (ack_then_low 16 304720)) w1 = Some (1, w2)
        \<and> wait_while_pin (board16 (ack_then_low 16 304720)) False w2 = None)
   \<and> (\<exists>v. ReadAndDisplayDHT11 (board16 (\<lambda>t. True)) power_on = Some v \<and> clock v \<le> 315520)
   \<and> (\<exists>v. ReadAndDisplayDHT11 (board16 (\<lambda>t. False)) power_on = Some v \<and> clock v \<le> 315520)
   \<and> wait_while_pin (board16 (\<lambda>t. True)) True power_on = None
   \<and> wait_while_pin (board16 (\<lambda>t. False)) False power_on = None"
proof -
  have a: "0 < access (board16 l)" "access (board16 l) < 2 ^ 31" for l
    by (simp_all add: board16_def)
  have ln: "line (board16 l) = l" for l
    by (simp add: board16_def)
  note t = only_the_per_bit_waits_are_unbounded [OF a, of _ power_on]
  have hang_high: "ReadAndDisplayDHT11 (board16 (ack_then_high 16 304720)) power_on = None
     \<and> (\<exists>w1 w2 w4 w5.
          DHT11_Start (board16 (ack_then_high 16 304720))
            (HAL_Delay (board16 (ack_then_high 16 304720)) 1 power_on) = Some w1
        \<and> DHT11_CheckResponse (board16 (ack_then_high 16 304720)) w1 = Some (1, w2)
        \<and> wait_while_pin (board16 (ack_then_high 16 304720)) False w2 = Some w4
        \<and> delay_us (board16 (ack_then_high 16 304720)) 40 w4 = Some w5
        \<and> wait_while_pin (board16 (ack_then_high 16 304720)) True
              (snd (HAL_GPIO_ReadPin (board16 (ack_then_high 16 304720)) w5)) = None)"
  proof -
    let ?l = "ack_then_high 16 304720"
    from t [of ?l] obtain w1 r w2 where
      st: "DHT11_Start (board16 ?l) (HAL_Delay (board16 ?l) 1 power_on) = Some w1"
      and cr: "DHT11_CheckResponse (board16 ?l) w1 = Some (r, w2)"
      and s: "\<forall>level. r \<noteq> 0 \<and> (\<forall>t\<ge>clock w2. line (board16 ?l) t = level)
                \<longrightarrow> ReadAndDisplayDHT11 (board16 ?l) power_on = None"
      by (elim exE conjE) (rule that; assumption)
    have "\<forall>t<304720. ?l t" and "\<forall>t. 304720 \<le> t \<and> t < 306000 \<longrightarrow> \<not> ?l t" and "?l 306080"
      by (simp_all add: ack_then_high_def)
    from board16_acknowledged [OF this] obtain v1 m where
      "DHT11_Start (board16 ?l) (HAL_Delay (board16 ?l) 1 power_on) = Some v1"
      and "DHT11_CheckResponse (board16 ?l) v1 = Some (1, v1\<lparr>clock := 306112 + 48 * m\<rparr>)"
      by blast
    then have r: "r = 1" and c: "clock w2 = 306112 + 48 * m"
      using st cr by auto
    then have high: "r \<noteq> 0 \<and> (\<forall>t\<ge>clock w2. line (board16 ?l) t = True)"
      by (simp add: ln ack_then_high_def)
    then have none: "ReadAndDisplayDHT11 (board16 ?l) power_on = None"
      using s by blast
    have s1: "wait_while_pin (board16 ?l) False w2
        = Some (w2\<lparr>clock := clock w2 + access (board16 ?l) * (0 + 1)\<rparr>)"
      using high by (intro wait_while_pin_steps) simp_all
    have s2: "delay_us (board16 ?l) 40 (w2\<lparr>clock := clock w2 + access (board16 ?l) * (0 + 1)\<rparr>)
        = Some (w2\<lparr>clock := clock w2 + access (board16 ?l) * (0 + 1)
                                 + delay_cycles (board16 ?l) 40\<rparr>)"
      using a by (simp add: delay_us_small)
    have s3: "wait_while_pin (board16 ?l) True
        (snd (HAL_GPIO_ReadPin (board16 ?l) (w2\<lparr>clock := clock w2 + access (board16 ?l) * (0 + 1)
                                 + delay_cycles (board16 ?l) 40\<rparr>))) = None"
      using high by (intro wait_while_pin_stuck) (simp add: HAL_GPIO_ReadPin_def tick_def)
    show ?thesis
      using none st cr r s1 s2 s3 by blast
  qed
  have hang_low: "ReadAndDisplayDHT11 (board16 (ack_then_low 16 304720)) power_on = None
     \<and> (\<exists>w1 w2.
          DHT11_Start (board16 (ack_then_low 16 304720))
            (HAL_Delay (board16 (ack_then_low 16 304720)) 1 power_on) = Some w1
        \<and> DHT11_CheckResponse (board16 (ack_then_low 16 304720)) w1 = Some (1, w2)
        \<and> wait_while_pin (board16 (ack_then_low 16 304720)) False w2 = None)"
  proof -
    let ?l = "ack_then_low 16 304720"
    from t [of ?l] obtain w1 r w2 where
      st: "DHT11_Start (board16 ?l) (HAL_Delay (board16 ?l) 1 power_on) = Some w1"
      and cr: "DHT11_CheckResponse (board16 ?l) w1 = Some (r, w2)"
      and s: "\<forall>level. r \<noteq> 0 \<and> (\<forall>t\<ge>clock w2. line (board16 ?l) t = level)
                \<longrightarrow> ReadAndDisplayDHT11 (board16 ?l) power_on = None"
      by (elim exE conjE) (rule that; assumption)
    have "\<forall>t<304720. ?l t" and "\<forall>t. 304720 \<le> t \<and> t < 306000 \<longrightarrow> \<not> ?l t" and "?l 306080"
      by (simp_all add: ack_then_low_def)
    from board16_acknowledged [OF this] obtain v1 m where
      m: "m = 100 \<or> \<not> ?l (306096 + 48 * m)"
      and "DHT11_Start (board16 ?l) (HAL_Delay (board16 ?l) 1 power_on) = Some v1"
      and "DHT11_CheckResponse (board16 ?l) v1 = Some (1, v1\<lparr>clock := 306112 + 48 * m\<rparr>)"
      by blast
    then have r: "r = 1" and c: "clock w2 = 306112 + 48 * m"
      using st cr by auto
    have "307280 \<le> 306112 + 48 * m"
      using m by (auto simp: ack_then_low_def)
    then have low: "r \<noteq> 0 \<and> (\<forall>t\<ge>clock w2. line (board16 ?l) t = False)"
      using r c by (simp add: ln ack_then_low_def)
    then have none: "ReadAndDisplayDHT11 (board16 ?l) power_on = None"
      using s by blast
    have "wait_while_pin (board16 ?l) False w2 = None"
      using low by (intro wait_while_pin_stuck) simp
    then show ?thesis
      using none st cr r by blast
  qed
  have b: "release_instant (board16 l) power_on + 200 * poll_period (board16 l) + 4 * access (board16 l)
           + delay_cycles (board16 l) 80 = 315520" for l
    by (simp add: release_instant_def start_duration_def ms_cycles_def poll_period_def
        delay_cycles_def delayTicks_of_def board16_def power_on_def)
  have returns: "\<exists>v. ReadAndDisplayDHT11 (board16 (\<lambda>t. level)) power_on = Some v \<and> clock v \<le> 315520"
    for level
  proof -
    let ?l = "\<lambda>t :: nat. level"
    from t [of ?l] obtain w1 r w2 where
      "DHT11_Start (board16 ?l) (HAL_Delay (board16 ?l) 1 power_on) = Some w1"
      and c1: "clock w1 = release_instant (board16 ?l) power_on"
      and "DHT11_CheckResponse (board16 ?l) w1 = Some (r, w2)"
      and bound: "clock w2 \<le> clock w1 + 200 * poll_period (board16 ?l) + 4 * access (board16 ?l)
                              + delay_cycles (board16 ?l) 80"
      and f: "r = (0 :: 8 word) \<longrightarrow> ReadAndDisplayDHT11 (board16 ?l) power_on = Some w2"
      and q: "\<forall>lv. (\<forall>t\<ge>clock w1. line (board16 ?l) t = lv) \<longrightarrow> r = 0"
      by (elim exE conjE) (rule that; assumption)
    have "r = 0"
      using q by (simp add: ln)
    moreover have "clock w2 \<le> 315520"
      using bound b [of ?l] unfolding c1 by simp
    ultimately show ?thesis
      using f by simp
  qed
  have waits: "wait_while_pin (board16 (\<lambda>t. level)) level power_on = None" for level
  proof -
    let ?l = "\<lambda>t :: nat. level"
    from t [of ?l] obtain w1 :: world where
      "\<forall>lv w0. (wait_while_pin (board16 ?l) lv w0 = None)
                  = (\<forall>i. line (board16 ?l) (clock w0 + access (board16 ?l) * i) = lv)"
      by (elim exE conjE) (rule that; assumption)
    then show ?thesis
      by (simp add: ln)
  qed
  show ?thesis
    using a [of "ack_then_high 16 304720"] hang_high hang_low returns [of True] returns [of False]
      waits [of True] waits [of False]
    by simp
qed

section \<open>C8: duration of the microsecond delay\<close>

text \<open>
  C8, as stated, fails where the 32-bit product wraps. At 16 MHz a request of
  268435456 microseconds gives \<open>delayTicks = 268435456 * 16 mod 2 ^ 32 = 0\<close>; the loop ends
  at its first test, after two counter reads (32 cycles), far short of the
  4294967296 cycles the request stands for.
\<close>

theorem delay_us_wraps_at_2_28:
  "delay_us (board16 (\<lambda>t. True)) 268435456 power_on = Some (power_on\<lparr>clock := 32\<rparr>)
   \<and> (32 :: nat) < 268435456 * (16000000 div 1000000)"
  by (simp add: delay_us_returns delay_cycles_def delayTicks_of_def board16_def power_on_def)

text \<open>
  C8, amended. When the counter advances at every read and the product
  \<open>us * (SystemCoreClock / 1000000)\<close>, with the cycles of one more counter read, stays below
  \<open>2 ^ 32\<close>, the target is exactly that product, \<open>delay_us\<close> returns, and it returns no
  earlier than the target number of cycles after the call and less than three counter
  reads later than that. It touches neither the indicator nor the log.
\<close>

theorem delay_us_elapsed_cycles:
  assumes "0 < access e"
    and "unat us * (unat (SystemCoreClock e) div 1000000) + access e < 2 ^ 32"
  shows "\<exists>w'. delay_us e us w = Some w'
           \<and> delayTicks_of e us = unat us * (unat (SystemCoreClock e) div 1000000)
           \<and> clock w + unat us * (unat (SystemCoreClock e) div 1000000) \<le> clock w'
           \<and> clock w' < clock w + unat us * (unat (SystemCoreClock e) div 1000000) + 3 * access e
           \<and> led w' = led w \<and> trace w' = trace w"
proof -
  have k: "unat (SystemCoreClock e div 1000000) = unat (SystemCoreClock e) div 1000000"
    by (simp add: unat_div)
  have "unat us * unat (SystemCoreClock e div 1000000) < 2 ^ 32"
    using assms(2) k by simp
  then have "unat (us * (SystemCoreClock e div 1000000)) = unat us * unat (SystemCoreClock e div 1000000)"
    by (rule unat_mult32)
  then have D: "delayTicks_of e us = unat us * (unat (SystemCoreClock e) div 1000000)"
    using k by (simp add: delayTicks_of_def)
  have r: "delay_us e us w = Some (w\<lparr>clock := clock w + delay_cycles e us\<rparr>)"
    using assms D by (intro delay_us_returns) simp_all
  show ?thesis
    using r D delay_cycles_bounds [OF assms(1), of us] by simp
qed

theorem delay_us_elapsed_cycles_witness:
  "0 < access (board16 (\<lambda>t. True))
   \<and> unat (40 :: 32 word) * (unat (SystemCoreClock (board16 (\<lambda>t. True))) div 1000000)
       + access (board16 (\<lambda>t. True)) < 2 ^ 32
   \<and> (\<exists>w'. delay_us (board16 (\<lambda>t. True)) 40 power_on = Some w'
         \<and> 640 \<le> clock w' \<and> clock w' < 688)"
  using delay_us_elapsed_cycles [of "board16 (\<lambda>t. True)" 40 power_on]
  by (auto simp: board16_def power_on_def)

section \<open>C9: output format\<close>



section \<open>C10: the indicator\<close>



end
